theory Spec2Isabelle
  imports Main
begin

section \<open>Memory model\<close>

text \<open>
  The map of \<^verbatim>\<open>map_mtm.c\<close> is a singly linked list of heap nodes behind a dummy first
  node. Nodes live in an explicit store, because the iterator and the \<^verbatim>\<open>next\<close> fields
  alias them. A pointer is an \<open>option\<close> (\<open>None\<close> is \<^verbatim>\<open>NULL\<close>); a field of a freshly
  allocated node is \<open>Indeterminate\<close> until the code assigns it. Every undefined behaviour
  of the C program is a value of the type \<open>fault\<close>.
\<close>

type_synonym addr = nat

datatype 'a field = Indeterminate | Val 'a

datatype fault = NullDereference | InvalidAccess | IndeterminateRead | InvalidFree
  | SignedOverflow

datatype MapResult = MAP_SUCCESS | MAP_OUT_OF_MEMORY | MAP_NULL_ARGUMENT
  | MAP_ITEM_DOES_NOT_EXIST

text \<open>\<^verbatim>\<open>struct node_t\<close>: the fields \<^verbatim>\<open>data\<close>, \<^verbatim>\<open>key\<close> and \<^verbatim>\<open>next\<close>.\<close>

record ('k, 'v) node =
  data :: "'v option field"
  key :: "'k option field"
  nxt :: "addr option field"

text \<open>
  The store: the allocated nodes, the next fresh address, the outcomes of the coming
  \<^verbatim>\<open>malloc\<close> calls (\<open>False\<close> is a failed allocation; once the list is used up every
  allocation succeeds), and the state \<open>world\<close> of the caller, which only the five
  caller-supplied functions read and change. A freed address is never handed out again.
\<close>

record ('k, 'v, 'w) memory =
  cells :: "addr \<Rightarrow> ('k, 'v) node option"
  brk :: addr
  mallocs :: "bool list"
  world :: 'w

text \<open>
  \<^verbatim>\<open>struct Map_t\<close>. The struct itself is passed and returned as a value; \<^verbatim>\<open>size\<close> is a C
  \<^verbatim>\<open>int\<close>, kept as an integer with the overflow checked where the code does arithmetic
  on it. The five function pointers take and return nullable pointers.
\<close>

record ('k, 'v, 'w) Map_t =
  iterator :: "addr option"
  msize :: int
  first :: addr
  copy_data :: "'v option \<Rightarrow> 'w \<Rightarrow> 'v option \<times> 'w"
  copy_key :: "'k option \<Rightarrow> 'w \<Rightarrow> 'k option \<times> 'w"
  free_data :: "'v option \<Rightarrow> 'w \<Rightarrow> 'w"
  free_key :: "'k option \<Rightarrow> 'w \<Rightarrow> 'w"
  compare_keys :: "'k option \<Rightarrow> 'k option \<Rightarrow> int"

definition INT_MAX :: int where
  "INT_MAX = 2147483647"

definition INT_MIN :: int where
  "INT_MIN = - 2147483648"

subsection \<open>Sequencing of computations that may fault\<close>

definition andThen :: "fault + 'a \<Rightarrow> ('a \<Rightarrow> fault + 'b) \<Rightarrow> fault + 'b" where
  "andThen m f = (case m of Inl e \<Rightarrow> Inl e | Inr x \<Rightarrow> f x)"

text \<open>For the loops over the heap, \<open>None\<close> is a loop that never ends.\<close>

definition andThenP ::
  "(fault + 'a) option \<Rightarrow> ('a \<Rightarrow> (fault + 'b) option) \<Rightarrow> (fault + 'b) option" where
  "andThenP m f = (case m of None \<Rightarrow> None | Some (Inl e) \<Rightarrow> Some (Inl e) | Some (Inr x) \<Rightarrow> f x)"

subsection \<open>Loads, stores, malloc and free\<close>

definition load ::
  "('k, 'v, 'w) memory \<Rightarrow> addr option \<Rightarrow> fault + ('k, 'v) node" where
  "load s p = (case p of None \<Rightarrow> Inl NullDereference
     | Some a \<Rightarrow> (case cells s a of None \<Rightarrow> Inl InvalidAccess | Some n \<Rightarrow> Inr n))"

definition rd :: "'a field \<Rightarrow> fault + 'a" where
  "rd f = (case f of Indeterminate \<Rightarrow> Inl IndeterminateRead | Val x \<Rightarrow> Inr x)"

definition get_data :: "('k, 'v, 'w) memory \<Rightarrow> addr option \<Rightarrow> fault + 'v option" where
  "get_data s p = andThen (load s p) (\<lambda>n. rd (data n))"

definition get_key :: "('k, 'v, 'w) memory \<Rightarrow> addr option \<Rightarrow> fault + 'k option" where
  "get_key s p = andThen (load s p) (\<lambda>n. rd (key n))"

definition get_next :: "('k, 'v, 'w) memory \<Rightarrow> addr option \<Rightarrow> fault + addr option" where
  "get_next s p = andThen (load s p) (\<lambda>n. rd (nxt n))"

definition store ::
  "('k, 'v, 'w) memory \<Rightarrow> addr option \<Rightarrow> (('k, 'v) node \<Rightarrow> ('k, 'v) node) \<Rightarrow>
   fault + ('k, 'v, 'w) memory" where
  "store s p upd = (case p of None \<Rightarrow> Inl NullDereference
     | Some a \<Rightarrow> (case cells s a of None \<Rightarrow> Inl InvalidAccess
         | Some n \<Rightarrow> Inr (s\<lparr>cells := (cells s)(a \<mapsto> upd n)\<rparr>)))"

definition set_data ::
  "('k, 'v, 'w) memory \<Rightarrow> addr option \<Rightarrow> 'v option \<Rightarrow> fault + ('k, 'v, 'w) memory" where
  "set_data s p v = store s p (\<lambda>n. n\<lparr>data := Val v\<rparr>)"

definition set_key ::
  "('k, 'v, 'w) memory \<Rightarrow> addr option \<Rightarrow> 'k option \<Rightarrow> fault + ('k, 'v, 'w) memory" where
  "set_key s p v = store s p (\<lambda>n. n\<lparr>key := Val v\<rparr>)"

definition set_next ::
  "('k, 'v, 'w) memory \<Rightarrow> addr option \<Rightarrow> addr option \<Rightarrow> fault + ('k, 'v, 'w) memory" where
  "set_next s p v = store s p (\<lambda>n. n\<lparr>nxt := Val v\<rparr>)"

text \<open>One \<^verbatim>\<open>malloc\<close> call takes the next outcome off \<open>mallocs\<close>.\<close>

definition malloc_outcome :: "('k, 'v, 'w) memory \<Rightarrow> bool \<times> ('k, 'v, 'w) memory" where
  "malloc_outcome s = (case mallocs s of [] \<Rightarrow> (True, s) | b # bs \<Rightarrow> (b, s\<lparr>mallocs := bs\<rparr>))"

text \<open>\<^verbatim>\<open>malloc(sizeof(struct node_t))\<close>: a node at a fresh address, no field assigned.\<close>

definition malloc_node :: "('k, 'v, 'w) memory \<Rightarrow> ('k, 'v, 'w) memory \<times> addr option" where
  "malloc_node s = (case malloc_outcome s of
       (False, s1) \<Rightarrow> (s1, None)
     | (True, s1) \<Rightarrow>
         (s1\<lparr>cells := (cells s1)(brk s1 \<mapsto>
               \<lparr>data = Indeterminate, key = Indeterminate, nxt = Indeterminate\<rparr>),
             brk := Suc (brk s1)\<rparr>, Some (brk s1)))"

text \<open>\<^verbatim>\<open>free\<close> of a node pointer; \<^verbatim>\<open>free(NULL)\<close> does nothing.\<close>

definition free :: "('k, 'v, 'w) memory \<Rightarrow> addr option \<Rightarrow> fault + ('k, 'v, 'w) memory" where
  "free s p = (case p of None \<Rightarrow> Inr s
     | Some a \<Rightarrow> (case cells s a of None \<Rightarrow> Inl InvalidFree
         | Some n \<Rightarrow> Inr (s\<lparr>cells := (cells s)(a := None)\<rparr>)))"

section \<open>The functions of \<^verbatim>\<open>map_mtm.c\<close>\<close>

subsection \<open>Static helpers\<close>

definition freeNode ::
  "('k, 'v, 'w) memory \<Rightarrow> ('k, 'v, 'w) Map_t \<Rightarrow> addr option \<Rightarrow> fault + ('k, 'v, 'w) memory" where
  "freeNode s mp node =
     andThen (get_data s node) (\<lambda>d.
       let s1 = s\<lparr>world := free_data mp d (world s)\<rparr> in
       andThen (get_key s1 node) (\<lambda>k.
         let s2 = s1\<lparr>world := free_key mp k (world s1)\<rparr> in
         free s2 node))"

partial_function (option) freeList ::
  "('k, 'v, 'w) memory \<Rightarrow> ('k, 'v, 'w) Map_t \<Rightarrow> addr option \<Rightarrow>
   (fault + ('k, 'v, 'w) memory) option" where
  "freeList s mp cur_node =
     (case cur_node of
        None \<Rightarrow> Some (Inr s)
      | Some a \<Rightarrow>
          (case get_next s cur_node of
             Inl e \<Rightarrow> Some (Inl e)
           | Inr nx \<Rightarrow>
               (case freeNode s mp cur_node of
                  Inl e \<Rightarrow> Some (Inl e)
                | Inr s' \<Rightarrow> freeList s' mp nx)))"

text \<open>
  \<^verbatim>\<open>while(length--)\<close>: the loop ends at 0; decrementing \<^verbatim>\<open>INT_MIN\<close> is a signed
  overflow. On a failed allocation only the head of the list built so far is freed.
\<close>

function createNewList_loop ::
  "('k, 'v, 'w) memory \<Rightarrow> int \<Rightarrow> addr option \<Rightarrow> fault + ('k, 'v, 'w) memory \<times> addr option" where
  "createNewList_loop s len new_list_head =
     (if len = 0 then Inr (s, new_list_head)
      else if len \<le> INT_MIN then Inl SignedOverflow
      else (case malloc_node s of
              (s1, None) \<Rightarrow> andThen (free s1 new_list_head) (\<lambda>s2. Inr (s2, None))
            | (s1, Some new_node) \<Rightarrow>
                andThen (set_next s1 (Some new_node) new_list_head) (\<lambda>s2.
                  createNewList_loop s2 (len - 1) (Some new_node))))"
  by pat_completeness auto
termination
  by (relation "measure (\<lambda>(s, len, h). nat (len - INT_MIN))") (auto simp: INT_MIN_def)

definition createNewList ::
  "('k, 'v, 'w) memory \<Rightarrow> int \<Rightarrow> fault + ('k, 'v, 'w) memory \<times> addr option" where
  "createNewList s len = createNewList_loop s len None"

text \<open>
  The body of the loop of \<^verbatim>\<open>copyList\<close> up to its test: both copies are made and stored,
  and the result says whether one of the two stored pointers is \<^verbatim>\<open>NULL\<close>.
\<close>

definition copyList_body ::
  "('k, 'v, 'w) memory \<Rightarrow> ('k, 'v, 'w) Map_t \<Rightarrow> addr option \<Rightarrow> addr option \<Rightarrow>
   fault + ('k, 'v, 'w) memory \<times> bool" where
  "copyList_body s src_map new_list_cur src_list_cur =
     andThen (get_data s src_list_cur) (\<lambda>d.
     let (d', w1) = copy_data src_map d (world s) in
     andThen (set_data (s\<lparr>world := w1\<rparr>) new_list_cur d') (\<lambda>s1.
     andThen (get_key s1 src_list_cur) (\<lambda>k.
     let (k', w2) = copy_key src_map k (world s1) in
     andThen (set_key (s1\<lparr>world := w2\<rparr>) new_list_cur k') (\<lambda>s2.
     andThen (get_data s2 new_list_cur) (\<lambda>nd.
     andThen (get_key s2 new_list_cur) (\<lambda>nk.
     Inr (s2, nd = None \<or> nk = None)))))))"

partial_function (option) copyList_loop ::
  "('k, 'v, 'w) memory \<Rightarrow> ('k, 'v, 'w) Map_t \<Rightarrow> addr option \<Rightarrow> addr option \<Rightarrow> addr option \<Rightarrow>
   (fault + ('k, 'v, 'w) memory \<times> MapResult) option" where
  "copyList_loop s src_map new_list_head new_list_cur src_list_cur =
     (case src_list_cur of
        None \<Rightarrow> Some (Inr (s, MAP_SUCCESS))
      | Some a \<Rightarrow>
          (case copyList_body s src_map new_list_cur src_list_cur of
             Inl e \<Rightarrow> Some (Inl e)
           | Inr (s2, failed) \<Rightarrow>
               if failed then
                 (case freeList s2 src_map new_list_head of
                    None \<Rightarrow> None
                  | Some (Inl e) \<Rightarrow> Some (Inl e)
                  | Some (Inr s3) \<Rightarrow> Some (Inr (s3, MAP_OUT_OF_MEMORY)))
               else
                 (case get_next s2 src_list_cur of
                    Inl e \<Rightarrow> Some (Inl e)
                  | Inr sn \<Rightarrow>
                      (case get_next s2 new_list_cur of
                         Inl e \<Rightarrow> Some (Inl e)
                       | Inr nn \<Rightarrow> copyList_loop s2 src_map new_list_head nn sn))))"

definition copyList ::
  "('k, 'v, 'w) memory \<Rightarrow> ('k, 'v, 'w) Map_t option \<Rightarrow> ('k, 'v, 'w) Map_t option \<Rightarrow>
   (fault + ('k, 'v, 'w) memory \<times> MapResult) option" where
  "copyList s src_map new_map =
     (case (src_map, new_map) of
        (Some src, Some new) \<Rightarrow>
          andThenP (Some (createNewList s (msize src))) (\<lambda>(s1, new_list_head).
            if new_list_head = None then Some (Inr (s1, MAP_OUT_OF_MEMORY))
            else
              andThenP (Some (get_next s1 (Some (first src)))) (\<lambda>src_list_cur.
              andThenP (copyList_loop s1 src new_list_head new_list_head src_list_cur)
                (\<lambda>(s2, r).
                   if r \<noteq> MAP_SUCCESS then Some (Inr (s2, r))
                   else andThenP (Some (set_next s2 (Some (first new)) new_list_head))
                          (\<lambda>s3. Some (Inr (s3, MAP_SUCCESS))))))
      | _ \<Rightarrow> Some (Inr (s, MAP_NULL_ARGUMENT)))"

partial_function (option) findPrevNode_loop ::
  "('k, 'v, 'w) memory \<Rightarrow> ('k, 'v, 'w) Map_t \<Rightarrow> 'k option \<Rightarrow> addr option \<Rightarrow>
   (fault + addr option \<times> bool) option" where
  "findPrevNode_loop s mp element cur_node =
     (case cur_node of
        None \<Rightarrow> Some (Inr (cur_node, False))
      | Some a \<Rightarrow>
          (case get_next s cur_node of
             Inl e \<Rightarrow> Some (Inl e)
           | Inr None \<Rightarrow> Some (Inr (cur_node, False))
           | Inr (Some b) \<Rightarrow>
               (case get_key s (Some b) of
                  Inl e \<Rightarrow> Some (Inl e)
                | Inr k \<Rightarrow>
                    (let result = compare_keys mp element k in
                     if result = 0 then Some (Inr (cur_node, True))
                     else if result < 0 then Some (Inr (cur_node, False))
                     else findPrevNode_loop s mp element (Some b)))))"

text \<open>\<^verbatim>\<open>findPrevNode\<close> returns the pair of \<^verbatim>\<open>*prev_node\<close> and its boolean result.\<close>

definition findPrevNode ::
  "('k, 'v, 'w) memory \<Rightarrow> ('k, 'v, 'w) Map_t \<Rightarrow> 'k option \<Rightarrow>
   (fault + addr option \<times> bool) option" where
  "findPrevNode s mp element = findPrevNode_loop s mp element (Some (first mp))"

definition createNewNode ::
  "('k, 'v, 'w) memory \<Rightarrow> ('k, 'v, 'w) Map_t \<Rightarrow> 'k option \<Rightarrow> 'v option \<Rightarrow>
   fault + ('k, 'v, 'w) memory \<times> addr option" where
  "createNewNode s mp keyElement dataElement =
     (case malloc_node s of
        (s1, None) \<Rightarrow> Inr (s1, None)
      | (s1, Some new_node) \<Rightarrow>
          (let (k', w1) = copy_key mp keyElement (world s1) in
           andThen (set_key (s1\<lparr>world := w1\<rparr>) (Some new_node) k') (\<lambda>s2.
           let (d', w2) = copy_data mp dataElement (world s2) in
           andThen (set_data (s2\<lparr>world := w2\<rparr>) (Some new_node) d') (\<lambda>s3.
           if k' = None \<or> d' = None
           then andThen (freeNode s3 mp (Some new_node)) (\<lambda>s4. Inr (s4, None))
           else Inr (s3, Some new_node)))))"

definition insertNewNode ::
  "('k, 'v, 'w) memory \<Rightarrow> addr option \<Rightarrow> addr option \<Rightarrow> fault + ('k, 'v, 'w) memory" where
  "insertNewNode s prev_node new_node =
     andThen (get_next s prev_node) (\<lambda>pn.
     andThen (set_next s new_node pn) (\<lambda>s1.
     set_next s1 prev_node new_node))"

definition initializeMap ::
  "('k, 'v, 'w) memory \<Rightarrow>
   ('v option \<Rightarrow> 'w \<Rightarrow> 'v option \<times> 'w) \<Rightarrow> ('k option \<Rightarrow> 'w \<Rightarrow> 'k option \<times> 'w) \<Rightarrow>
   ('v option \<Rightarrow> 'w \<Rightarrow> 'w) \<Rightarrow> ('k option \<Rightarrow> 'w \<Rightarrow> 'w) \<Rightarrow>
   ('k option \<Rightarrow> 'k option \<Rightarrow> int) \<Rightarrow> addr \<Rightarrow>
   fault + ('k, 'v, 'w) memory \<times> ('k, 'v, 'w) Map_t" where
  "initializeMap s copyDataElement copyKeyElement freeDataElement freeKeyElement
       compareKeyElements dummy_first =
     andThen (set_key s (Some dummy_first) None) (\<lambda>s1.
     andThen (set_data s1 (Some dummy_first) None) (\<lambda>s2.
     andThen (set_next s2 (Some dummy_first) None) (\<lambda>s3.
     Inr (s3, \<lparr>iterator = Some dummy_first, msize = 0, first = dummy_first,
               copy_data = copyDataElement, copy_key = copyKeyElement,
               free_data = freeDataElement, free_key = freeKeyElement,
               compare_keys = compareKeyElements\<rparr>))))"

subsection \<open>Public functions\<close>

text \<open>
  A public function takes the map as a nullable pointer and returns, with its C result,
  the store and the map struct as the call left them.
\<close>

definition mapCreate ::
  "('k, 'v, 'w) memory \<Rightarrow>
   ('v option \<Rightarrow> 'w \<Rightarrow> 'v option \<times> 'w) option \<Rightarrow> ('k option \<Rightarrow> 'w \<Rightarrow> 'k option \<times> 'w) option \<Rightarrow>
   ('v option \<Rightarrow> 'w \<Rightarrow> 'w) option \<Rightarrow> ('k option \<Rightarrow> 'w \<Rightarrow> 'w) option \<Rightarrow>
   ('k option \<Rightarrow> 'k option \<Rightarrow> int) option \<Rightarrow>
   fault + ('k, 'v, 'w) memory \<times> ('k, 'v, 'w) Map_t option" where
  "mapCreate s copyDataElement copyKeyElement freeDataElement freeKeyElement
       compareKeyElements =
     (case (copyDataElement, copyKeyElement, freeDataElement, freeKeyElement,
            compareKeyElements) of
        (Some cd, Some ck, Some fd, Some fk, Some cmp) \<Rightarrow>
          (case malloc_outcome s of
             (False, s1) \<Rightarrow> Inr (s1, None)
           | (True, s1) \<Rightarrow>
               (case malloc_node s1 of
                  (s2, None) \<Rightarrow> Inr (s2, None)
                | (s2, Some dummy_first) \<Rightarrow>
                    andThen (initializeMap s2 cd ck fd fk cmp dummy_first)
                      (\<lambda>(s3, mp). Inr (s3, Some mp))))
      | _ \<Rightarrow> Inr (s, None))"

definition mapClear ::
  "('k, 'v, 'w) memory \<Rightarrow> ('k, 'v, 'w) Map_t option \<Rightarrow>
   (fault + ('k, 'v, 'w) memory \<times> ('k, 'v, 'w) Map_t option \<times> MapResult) option" where
  "mapClear s mp =
     (case mp of
        None \<Rightarrow> Some (Inr (s, None, MAP_NULL_ARGUMENT))
      | Some m \<Rightarrow>
          andThenP (Some (get_next s (Some (first m)))) (\<lambda>list.
          andThenP (freeList s m list) (\<lambda>s1.
          andThenP (Some (set_next s1 (Some (first m)) None)) (\<lambda>s2.
          Some (Inr (s2, Some (m\<lparr>msize := 0\<rparr>), MAP_SUCCESS))))))"

definition mapDestroy ::
  "('k, 'v, 'w) memory \<Rightarrow> ('k, 'v, 'w) Map_t option \<Rightarrow> (fault + ('k, 'v, 'w) memory) option" where
  "mapDestroy s mp =
     (case mp of
        None \<Rightarrow> Some (Inr s)
      | Some m \<Rightarrow>
          andThenP (mapClear s mp) (\<lambda>(s1, mp1, r).
            Some (free s1 (Some (first m)))))"

text \<open>\<^verbatim>\<open>mapCopy\<close> returns the store, the source map and the new map (\<open>None\<close> is \<^verbatim>\<open>NULL\<close>).\<close>

definition mapCopy ::
  "('k, 'v, 'w) memory \<Rightarrow> ('k, 'v, 'w) Map_t option \<Rightarrow>
   (fault + ('k, 'v, 'w) memory \<times> ('k, 'v, 'w) Map_t option \<times> ('k, 'v, 'w) Map_t option) option"
  where
  "mapCopy s mp =
     (case mp of
        None \<Rightarrow> Some (Inr (s, None, None))
      | Some m \<Rightarrow>
          andThenP (Some (mapCreate s (Some (copy_data m)) (Some (copy_key m))
                            (Some (free_data m)) (Some (free_key m)) (Some (compare_keys m))))
            (\<lambda>(s1, created).
               case created of
                 None \<Rightarrow> Some (Inr (s1, mp, None))
               | Some c0 \<Rightarrow>
                   (let map_copy = c0\<lparr>msize := msize m\<rparr> in
                    if msize m \<noteq> 0 then
                      andThenP (copyList s1 mp (Some map_copy)) (\<lambda>(s2, error_code).
                        if error_code \<noteq> MAP_SUCCESS
                        then andThenP (mapDestroy s2 (Some map_copy))
                               (\<lambda>s3. Some (Inr (s3, mp, None)))
                        else Some (Inr (s2, Some (m\<lparr>iterator := None\<rparr>),
                                        Some (map_copy\<lparr>iterator := None\<rparr>))))
                    else Some (Inr (s1, Some (m\<lparr>iterator := None\<rparr>),
                                    Some (map_copy\<lparr>iterator := None\<rparr>))))))"

definition mapGetSize :: "('k, 'v, 'w) Map_t option \<Rightarrow> int" where
  "mapGetSize mp = (case mp of None \<Rightarrow> - 1 | Some m \<Rightarrow> msize m)"

definition mapContains ::
  "('k, 'v, 'w) memory \<Rightarrow> ('k, 'v, 'w) Map_t option \<Rightarrow> 'k option \<Rightarrow> (fault + bool) option" where
  "mapContains s mp element =
     (case (mp, element) of
        (Some m, Some e) \<Rightarrow>
          andThenP (findPrevNode s m element) (\<lambda>(prev_node, found).
            if found then Some (Inr True) else Some (Inr False))
      | _ \<Rightarrow> Some (Inr False))"

definition mapPut ::
  "('k, 'v, 'w) memory \<Rightarrow> ('k, 'v, 'w) Map_t option \<Rightarrow> 'k option \<Rightarrow> 'v option \<Rightarrow>
   (fault + ('k, 'v, 'w) memory \<times> ('k, 'v, 'w) Map_t option \<times> MapResult) option" where
  "mapPut s mp keyElement dataElement =
     (case (mp, keyElement, dataElement) of
        (Some m, Some k, Some d) \<Rightarrow>
          andThenP (findPrevNode s m keyElement) (\<lambda>(prev_node, found).
            if found then
              Some (andThen (get_next s prev_node) (\<lambda>target.
                    andThen (get_data s target) (\<lambda>old.
                    let s1 = s\<lparr>world := free_data m old (world s)\<rparr>;
                        (d', w2) = copy_data m dataElement (world s1) in
                    andThen (get_next s1 prev_node) (\<lambda>target1.
                    andThen (set_data (s1\<lparr>world := w2\<rparr>) target1 d') (\<lambda>s2.
                    andThen (get_next s2 prev_node) (\<lambda>target2.
                    andThen (get_data s2 target2) (\<lambda>stored.
                    if stored = None then Inr (s2, mp, MAP_OUT_OF_MEMORY)
                    else Inr (s2, Some (m\<lparr>iterator := None\<rparr>), MAP_SUCCESS))))))))
            else
              Some (andThen (createNewNode s m keyElement dataElement) (\<lambda>(s1, new_node).
                    if new_node = None then Inr (s1, mp, MAP_OUT_OF_MEMORY)
                    else
                      andThen (insertNewNode s1 prev_node new_node) (\<lambda>s2.
                      if msize m \<ge> INT_MAX then Inl SignedOverflow
                      else Inr (s2, Some (m\<lparr>msize := msize m + 1, iterator := None\<rparr>),
                                MAP_SUCCESS)))))
      | _ \<Rightarrow> Some (Inr (s, mp, MAP_NULL_ARGUMENT)))"

definition mapGet ::
  "('k, 'v, 'w) memory \<Rightarrow> ('k, 'v, 'w) Map_t option \<Rightarrow> 'k option \<Rightarrow>
   (fault + 'v option) option" where
  "mapGet s mp keyElement =
     (case (mp, keyElement) of
        (Some m, Some k) \<Rightarrow>
          andThenP (findPrevNode s m keyElement) (\<lambda>(prev_node, found).
            if \<not> found then Some (Inr None)
            else Some (andThen (get_next s prev_node) (\<lambda>target. get_data s target)))
      | _ \<Rightarrow> Some (Inr None))"

definition mapRemove ::
  "('k, 'v, 'w) memory \<Rightarrow> ('k, 'v, 'w) Map_t option \<Rightarrow> 'k option \<Rightarrow>
   (fault + ('k, 'v, 'w) memory \<times> ('k, 'v, 'w) Map_t option \<times> MapResult) option" where
  "mapRemove s mp keyElement =
     (case (mp, keyElement) of
        (Some m, Some k) \<Rightarrow>
          andThenP (findPrevNode s m keyElement) (\<lambda>(prev_node, found).
            if \<not> found then Some (Inr (s, mp, MAP_ITEM_DOES_NOT_EXIST))
            else
              Some (andThen (get_next s prev_node) (\<lambda>node_to_remove.
                    andThen (get_next s node_to_remove) (\<lambda>after.
                    andThen (set_next s prev_node after) (\<lambda>s1.
                    andThen (freeNode s1 m node_to_remove) (\<lambda>s2.
                    if msize m \<le> INT_MIN then Inl SignedOverflow
                    else Inr (s2, Some (m\<lparr>msize := msize m - 1, iterator := None\<rparr>),
                              MAP_SUCCESS)))))))
      | _ \<Rightarrow> Some (Inr (s, mp, MAP_NULL_ARGUMENT)))"

definition mapGetFirst ::
  "('k, 'v, 'w) memory \<Rightarrow> ('k, 'v, 'w) Map_t option \<Rightarrow>
   fault + ('k, 'v, 'w) Map_t option \<times> 'k option" where
  "mapGetFirst s mp =
     (case mp of
        None \<Rightarrow> Inr (None, None)
      | Some m \<Rightarrow>
          andThen (get_next s (Some (first m))) (\<lambda>fst_node.
            if fst_node = None then Inr (mp, None)
            else andThen (get_key s fst_node) (\<lambda>k.
                   Inr (Some (m\<lparr>iterator := fst_node\<rparr>), k))))"

definition mapGetNext ::
  "('k, 'v, 'w) memory \<Rightarrow> ('k, 'v, 'w) Map_t option \<Rightarrow>
   fault + ('k, 'v, 'w) Map_t option \<times> 'k option" where
  "mapGetNext s mp =
     (case mp of
        None \<Rightarrow> Inr (None, None)
      | Some m \<Rightarrow>
          if iterator m = None then Inr (mp, None)
          else
            andThen (get_next s (iterator m)) (\<lambda>following.
              if following = None then Inr (mp, None)
              else andThen (get_key s following) (\<lambda>k.
                     Inr (Some (m\<lparr>iterator := following\<rparr>), k))))"

section \<open>The client's view\<close>

subsection \<open>Enumeration\<close>

text \<open>
  A full enumeration is the client's loop: \<^verbatim>\<open>mapGetFirst\<close>, then \<^verbatim>\<open>mapGetNext\<close> until it
  returns \<^verbatim>\<open>NULL\<close>. The result is the map struct as the last call left it and the key
  pointers returned, in order.
\<close>

partial_function (option) enumerate_rest ::
  "('k, 'v, 'w) memory \<Rightarrow> ('k, 'v, 'w) Map_t \<Rightarrow> 'k option list \<Rightarrow>
   (fault + ('k, 'v, 'w) Map_t \<times> 'k option list) option" where
  "enumerate_rest s mp acc =
     (case mapGetNext s (Some mp) of
        Inl e \<Rightarrow> Some (Inl e)
      | Inr (mo, k) \<Rightarrow>
          (case mo of
             None \<Rightarrow> Some (Inr (mp, acc))
           | Some mp' \<Rightarrow>
               if k = None then Some (Inr (mp', acc))
               else enumerate_rest s mp' (acc @ [k])))"

definition enumerate ::
  "('k, 'v, 'w) memory \<Rightarrow> ('k, 'v, 'w) Map_t \<Rightarrow>
   (fault + ('k, 'v, 'w) Map_t \<times> 'k option list) option" where
  "enumerate s mp =
     (case mapGetFirst s (Some mp) of
        Inl e \<Rightarrow> Some (Inl e)
      | Inr (mo, k) \<Rightarrow>
          (case mo of
             None \<Rightarrow> Some (Inr (mp, []))
           | Some mp' \<Rightarrow>
               if k = None then Some (Inr (mp', []))
               else enumerate_rest s mp' [k]))"

text \<open>A sequence of \<^verbatim>\<open>mapPut\<close> calls on one map, each of them returning \<^verbatim>\<open>MAP_SUCCESS\<close>.\<close>

inductive puts ::
  "('k, 'v, 'w) memory \<Rightarrow> ('k, 'v, 'w) Map_t \<Rightarrow> ('k \<times> 'v) list \<Rightarrow>
   ('k, 'v, 'w) memory \<Rightarrow> ('k, 'v, 'w) Map_t \<Rightarrow> bool" where
  puts_Nil: "puts s mp [] s mp"
| puts_Cons:
    "mapPut s mp_ptr (Some k) (Some d) = Some (Inr (s1, Some mp1, MAP_SUCCESS)) \<Longrightarrow>
     mp_ptr = Some mp \<Longrightarrow> puts s1 mp1 kds s' mp' \<Longrightarrow> puts s mp ((k, d) # kds) s' mp'"

subsection \<open>A program as a sequence of calls\<close>

text \<open>
  A client holds any number of maps in one store. A map pointer of the client is a
  handle: \<open>None\<close> is \<^verbatim>\<open>NULL\<close>, \<open>Some i\<close> is the \<open>i\<close>-th map created. Using the
  handle of a destroyed map is an access to freed memory.
\<close>

record ('k, 'v, 'w) system =
  mem :: "('k, 'v, 'w) memory"
  maps :: "('k, 'v, 'w) Map_t option list"

datatype ('k, 'v, 'w) call =
    Create "('v option \<Rightarrow> 'w \<Rightarrow> 'v option \<times> 'w) option"
           "('k option \<Rightarrow> 'w \<Rightarrow> 'k option \<times> 'w) option"
           "('v option \<Rightarrow> 'w \<Rightarrow> 'w) option" "('k option \<Rightarrow> 'w \<Rightarrow> 'w) option"
           "('k option \<Rightarrow> 'k option \<Rightarrow> int) option"
  | Destroy "nat option"
  | Copy "nat option"
  | GetSize "nat option"
  | Contains "nat option" "'k option"
  | Put "nat option" "'k option" "'v option"
  | Get "nat option" "'k option"
  | Remove "nat option" "'k option"
  | GetFirst "nat option"
  | GetNext "nat option"
  | Clear "nat option"

datatype ('k, 'v) answer =
    Handle "nat option"
  | Code MapResult
  | Count int
  | Truth bool
  | KeyPtr "'k option"
  | DataPtr "'v option"
  | Nothing

definition map_of_handle ::
  "('k, 'v, 'w) system \<Rightarrow> nat option \<Rightarrow> fault + ('k, 'v, 'w) Map_t option" where
  "map_of_handle \<sigma> h =
     (case h of
        None \<Rightarrow> Inr None
      | Some i \<Rightarrow>
          if i < length (maps \<sigma>)
          then (case maps \<sigma> ! i of None \<Rightarrow> Inl InvalidAccess | Some mp \<Rightarrow> Inr (Some mp))
          else Inl InvalidAccess)"

definition put_back ::
  "('k, 'v, 'w) system \<Rightarrow> nat option \<Rightarrow> ('k, 'v, 'w) memory \<Rightarrow> ('k, 'v, 'w) Map_t option \<Rightarrow>
   ('k, 'v, 'w) system" where
  "put_back \<sigma> h s mo =
     (case h of
        None \<Rightarrow> \<sigma>\<lparr>mem := s\<rparr>
      | Some i \<Rightarrow> \<sigma>\<lparr>mem := s, maps := (maps \<sigma>)[i := mo]\<rparr>)"

definition new_handle ::
  "('k, 'v, 'w) system \<Rightarrow> ('k, 'v, 'w) Map_t option \<Rightarrow> ('k, 'v, 'w) system \<times> nat option" where
  "new_handle \<sigma> mo =
     (case mo of
        None \<Rightarrow> (\<sigma>, None)
      | Some mp \<Rightarrow> (\<sigma>\<lparr>maps := maps \<sigma> @ [Some mp]\<rparr>, Some (length (maps \<sigma>))))"

fun step ::
  "('k, 'v, 'w) system \<Rightarrow> ('k, 'v, 'w) call \<Rightarrow>
   (fault + ('k, 'v, 'w) system \<times> ('k, 'v) answer) option" where
  "step \<sigma> (Create cd ck fd fk cmp) =
     andThenP (Some (mapCreate (mem \<sigma>) cd ck fd fk cmp)) (\<lambda>(s, mo).
       case new_handle (\<sigma>\<lparr>mem := s\<rparr>) mo of (\<sigma>', h) \<Rightarrow> Some (Inr (\<sigma>', Handle h)))"
| "step \<sigma> (Destroy h) =
     andThenP (Some (map_of_handle \<sigma> h)) (\<lambda>mo.
     andThenP (mapDestroy (mem \<sigma>) mo) (\<lambda>s.
       Some (Inr (put_back \<sigma> h s None, Nothing))))"
| "step \<sigma> (Copy h) =
     andThenP (Some (map_of_handle \<sigma> h)) (\<lambda>mo.
     andThenP (mapCopy (mem \<sigma>) mo) (\<lambda>(s, mo', copy).
       case new_handle (put_back \<sigma> h s mo') copy of (\<sigma>', h') \<Rightarrow> Some (Inr (\<sigma>', Handle h'))))"
| "step \<sigma> (GetSize h) =
     andThenP (Some (map_of_handle \<sigma> h)) (\<lambda>mo. Some (Inr (\<sigma>, Count (mapGetSize mo))))"
| "step \<sigma> (Contains h k) =
     andThenP (Some (map_of_handle \<sigma> h)) (\<lambda>mo.
     andThenP (mapContains (mem \<sigma>) mo k) (\<lambda>b. Some (Inr (\<sigma>, Truth b))))"
| "step \<sigma> (Put h k d) =
     andThenP (Some (map_of_handle \<sigma> h)) (\<lambda>mo.
     andThenP (mapPut (mem \<sigma>) mo k d) (\<lambda>(s, mo', r).
       Some (Inr (put_back \<sigma> h s mo', Code r))))"
| "step \<sigma> (Get h k) =
     andThenP (Some (map_of_handle \<sigma> h)) (\<lambda>mo.
     andThenP (mapGet (mem \<sigma>) mo k) (\<lambda>d. Some (Inr (\<sigma>, DataPtr d))))"
| "step \<sigma> (Remove h k) =
     andThenP (Some (map_of_handle \<sigma> h)) (\<lambda>mo.
     andThenP (mapRemove (mem \<sigma>) mo k) (\<lambda>(s, mo', r).
       Some (Inr (put_back \<sigma> h s mo', Code r))))"
| "step \<sigma> (GetFirst h) =
     andThenP (Some (map_of_handle \<sigma> h)) (\<lambda>mo.
     andThenP (Some (mapGetFirst (mem \<sigma>) mo)) (\<lambda>(mo', k).
       Some (Inr (put_back \<sigma> h (mem \<sigma>) mo', KeyPtr k))))"
| "step \<sigma> (GetNext h) =
     andThenP (Some (map_of_handle \<sigma> h)) (\<lambda>mo.
     andThenP (Some (mapGetNext (mem \<sigma>) mo)) (\<lambda>(mo', k).
       Some (Inr (put_back \<sigma> h (mem \<sigma>) mo', KeyPtr k))))"
| "step \<sigma> (Clear h) =
     andThenP (Some (map_of_handle \<sigma> h)) (\<lambda>mo.
     andThenP (mapClear (mem \<sigma>) mo) (\<lambda>(s, mo', r).
       Some (Inr (put_back \<sigma> h s mo', Code r))))"

fun run ::
  "('k, 'v, 'w) system \<Rightarrow> ('k, 'v, 'w) call list \<Rightarrow>
   (fault + ('k, 'v, 'w) system \<times> ('k, 'v) answer list) option" where
  "run \<sigma> [] = Some (Inr (\<sigma>, []))"
| "run \<sigma> (c # cs) =
     andThenP (step \<sigma> c) (\<lambda>(\<sigma>1, x).
     andThenP (run \<sigma>1 cs) (\<lambda>(\<sigma>2, xs). Some (Inr (\<sigma>2, x # xs))))"

definition start :: "bool list \<Rightarrow> 'w \<Rightarrow> ('k, 'v, 'w) system" where
  "start ms w = \<lparr>mem = \<lparr>cells = (\<lambda>a. None), brk = 0, mallocs = ms, world = w\<rparr>, maps = []\<rparr>"

text \<open>
  What section 6 of the specification asks of the caller's functions: the comparison
  is a total order up to ties, and the copy of a key ties with the key.
\<close>

definition lawful ::
  "('k option \<Rightarrow> 'k option \<Rightarrow> int) \<Rightarrow> ('k option \<Rightarrow> 'w \<Rightarrow> 'k option \<times> 'w) \<Rightarrow> bool" where
  "lawful cmp ck \<longleftrightarrow>
     (\<forall>x y. sgn (cmp (Some x) (Some y)) = - sgn (cmp (Some y) (Some x))) \<and>
     (\<forall>x y z. cmp (Some x) (Some y) \<le> 0 \<longrightarrow> cmp (Some y) (Some z) \<le> 0 \<longrightarrow>
        cmp (Some x) (Some z) \<le> 0) \<and>
     (\<forall>x w y. fst (ck (Some x) w) = Some y \<longrightarrow> cmp (Some x) (Some y) = 0)"

fun lawful_call :: "('k, 'v, 'w) call \<Rightarrow> bool" where
  "lawful_call (Create cd (Some ck) fd fk (Some cmp)) = lawful cmp ck"
| "lawful_call c = True"

inductive reachable :: "('k, 'v, 'w) system \<Rightarrow> bool" where
  reachable_start: "reachable (start ms w)"
| reachable_step:
    "reachable \<sigma> \<Longrightarrow> lawful_call c \<Longrightarrow> step \<sigma> c = Some (Inr (\<sigma>', x)) \<Longrightarrow> reachable \<sigma>'"

subsection \<open>A sample client: integer keys and data\<close>

text \<open>
  The functions a client with \<^verbatim>\<open>int\<close> keys and data hands to \<^verbatim>\<open>mapCreate\<close>. The client's
  state is the list of outcomes of its own coming allocations.
\<close>

definition copyInt :: "int option \<Rightarrow> bool list \<Rightarrow> int option \<times> bool list" where
  "copyInt x w =
     (case x of
        None \<Rightarrow> (None, w)
      | Some n \<Rightarrow> (case w of [] \<Rightarrow> (Some n, []) | b # r \<Rightarrow> (if b then Some n else None, r)))"

definition freeInt :: "int option \<Rightarrow> bool list \<Rightarrow> bool list" where
  "freeInt x w = w"

definition compareInts :: "int option \<Rightarrow> int option \<Rightarrow> int" where
  "compareInts a b = (case (a, b) of (Some x, Some y) \<Rightarrow> x - y | _ \<Rightarrow> 0)"

definition createInts :: "(int, int, bool list) call" where
  "createInts = Create (Some copyInt) (Some copyInt) (Some freeInt) (Some freeInt)
     (Some compareInts)"

text \<open>The store and the map struct of this client right after \<^verbatim>\<open>mapCreate\<close>.\<close>

definition fresh_mem :: "(int, int, bool list) memory" where
  "fresh_mem =
     \<lparr>cells = (\<lambda>a. None)(0 \<mapsto> \<lparr>data = Val None, key = Val None, nxt = Val None\<rparr>),
      brk = 1, mallocs = [], world = []\<rparr>"

definition fresh_map :: "(int, int, bool list) Map_t" where
  "fresh_map =
     \<lparr>iterator = Some 0, msize = 0, first = 0, copy_data = copyInt, copy_key = copyInt,
      free_data = freeInt, free_key = freeInt, compare_keys = compareInts\<rparr>"

text \<open>
  The store and the map struct of this client after \<^verbatim>\<open>mapCreate\<close>, \<^verbatim>\<open>mapPut(1, 10)\<close> and
  \<^verbatim>\<open>mapPut(3, 30)\<close>: the dummy node at address 0, then the nodes of the keys 1 and 3.
\<close>

definition demo_mem :: "(int, int, bool list) memory" where
  "demo_mem =
     \<lparr>cells = (\<lambda>a. None)
        (0 \<mapsto> \<lparr>data = Val None, key = Val None, nxt = Val (Some 1)\<rparr>,
         1 \<mapsto> \<lparr>data = Val (Some 10), key = Val (Some 1), nxt = Val (Some 2)\<rparr>,
         2 \<mapsto> \<lparr>data = Val (Some 30), key = Val (Some 3), nxt = Val None\<rparr>),
      brk = 3, mallocs = [], world = []\<rparr>"

definition demo_map :: "(int, int, bool list) Map_t" where
  "demo_map =
     \<lparr>iterator = None, msize = 2, first = 0, copy_data = copyInt, copy_key = copyInt,
      free_data = freeInt, free_key = freeInt, compare_keys = compareInts\<rparr>"

section \<open>Abstraction of a map in the store\<close>

definition next_at :: "('k, 'v, 'w) memory \<Rightarrow> addr \<Rightarrow> addr option option" where
  "next_at s a = (case cells s a of None \<Rightarrow> None
     | Some n \<Rightarrow> (case nxt n of Indeterminate \<Rightarrow> None | Val q \<Rightarrow> Some q))"

definition key_at :: "('k, 'v, 'w) memory \<Rightarrow> addr \<Rightarrow> 'k option" where
  "key_at s a = (case cells s a of None \<Rightarrow> None
     | Some n \<Rightarrow> (case key n of Indeterminate \<Rightarrow> None | Val k \<Rightarrow> k))"

definition data_at :: "('k, 'v, 'w) memory \<Rightarrow> addr \<Rightarrow> 'v option" where
  "data_at s a = (case cells s a of None \<Rightarrow> None
     | Some n \<Rightarrow> (case data n of Indeterminate \<Rightarrow> None | Val d \<Rightarrow> d))"

text \<open>\<open>chain s p as\<close>: following \<^verbatim>\<open>next\<close> from \<open>p\<close> visits the nodes \<open>as\<close> and ends at \<^verbatim>\<open>NULL\<close>.\<close>

fun chain :: "('k, 'v, 'w) memory \<Rightarrow> addr option \<Rightarrow> addr list \<Rightarrow> bool" where
  "chain s p [] = (p = None)"
| "chain s p (a # as) =
     (p = Some a \<and> (case next_at s a of None \<Rightarrow> False | Some q \<Rightarrow> chain s q as))"

text \<open>A real node: allocated, its key assigned and not \<^verbatim>\<open>NULL\<close>, its data assigned.\<close>

definition filled :: "('k, 'v, 'w) memory \<Rightarrow> addr \<Rightarrow> bool" where
  "filled s a = (case cells s a of None \<Rightarrow> False
     | Some n \<Rightarrow> (case key n of Val (Some k) \<Rightarrow> data n \<noteq> Indeterminate | _ \<Rightarrow> False))"

definition above :: "('k, 'v, 'w) Map_t \<Rightarrow> ('k, 'v, 'w) memory \<Rightarrow> 'k option \<Rightarrow> addr \<Rightarrow> bool" where
  "above mp s element a = (0 < compare_keys mp element (key_at s a))"

definition before :: "('k, 'v, 'w) Map_t \<Rightarrow> ('k, 'v, 'w) memory \<Rightarrow> addr \<Rightarrow> addr \<Rightarrow> bool" where
  "before mp s a b = (compare_keys mp (key_at s a) (key_at s b) < 0)"

text \<open>
  \<open>map_inv s mp as\<close>: the real nodes of the map are \<open>as\<close>, in this order, behind the dummy
  first node; they are strictly increasing, and \<^verbatim>\<open>size\<close> counts them.
\<close>

definition map_inv :: "('k, 'v, 'w) memory \<Rightarrow> ('k, 'v, 'w) Map_t \<Rightarrow> addr list \<Rightarrow> bool" where
  "map_inv s mp as \<longleftrightarrow>
     chain s (Some (first mp)) (first mp # as) \<and> list_all (filled s) as \<and>
     sorted_wrt (before mp s) as \<and> msize mp = int (length as) \<and>
     list_all (\<lambda>a. a < brk s) (first mp # as)"

definition entries ::
  "('k, 'v, 'w) memory \<Rightarrow> addr list \<Rightarrow> ('k option \<times> 'v option) list" where
  "entries s as = map (\<lambda>a. (key_at s a, data_at s a)) as"

definition present :: "('k, 'v, 'w) memory \<Rightarrow> ('k, 'v, 'w) Map_t \<Rightarrow> addr list \<Rightarrow> 'k option \<Rightarrow> bool"
  where
  "present s mp as k = list_ex (\<lambda>a. compare_keys mp k (key_at s a) = 0) as"


text \<open>
  \<open>evolves s mp as s' mp' as'\<close>: what a call on one map may do to the store. The map is
  well formed afterwards, its new nodes are freshly allocated, and no node of the store
  outside the map is touched.
\<close>

definition same_functions :: "('k, 'v, 'w) Map_t \<Rightarrow> ('k, 'v, 'w) Map_t \<Rightarrow> bool" where
  "same_functions mp mp' \<longleftrightarrow>
     copy_data mp' = copy_data mp \<and> copy_key mp' = copy_key mp \<and>
     free_data mp' = free_data mp \<and> free_key mp' = free_key mp \<and>
     compare_keys mp' = compare_keys mp"

definition untouched ::
  "('k, 'v, 'w) memory \<Rightarrow> addr list \<Rightarrow> ('k, 'v, 'w) memory \<Rightarrow> bool" where
  "untouched s as s' \<longleftrightarrow>
     brk s \<le> brk s' \<and> (\<forall>a. a < brk s \<longrightarrow> a \<notin> set as \<longrightarrow> cells s' a = cells s a)"

definition evolves ::
  "('k, 'v, 'w) memory \<Rightarrow> ('k, 'v, 'w) Map_t \<Rightarrow> addr list \<Rightarrow>
   ('k, 'v, 'w) memory \<Rightarrow> ('k, 'v, 'w) Map_t \<Rightarrow> addr list \<Rightarrow> bool" where
  "evolves s mp as s' mp' as' \<longleftrightarrow>
     map_inv s' mp' as' \<and> first mp' = first mp \<and> same_functions mp mp' \<and>
     untouched s (first mp # as) s' \<and>
     (\<forall>a\<in>set as'. a \<in> set as \<or> brk s \<le> a)"

definition replies ::
  "('k, 'v, 'w) system \<Rightarrow> ('k, 'v, 'w) call list \<Rightarrow> (fault + ('k, 'v) answer list) option" where
  "replies \<sigma> cs = map_option (map_sum id snd) (run \<sigma> cs)"


text \<open>A node whose \<^verbatim>\<open>data\<close> and \<^verbatim>\<open>key\<close> fields have both been assigned.\<close>

definition assigned :: "('k, 'v, 'w) memory \<Rightarrow> addr \<Rightarrow> bool" where
  "assigned s a = (case cells s a of None \<Rightarrow> False
     | Some n \<Rightarrow> data n \<noteq> Indeterminate \<and> key n \<noteq> Indeterminate)"

text \<open>The store with the nodes \<open>as\<close> freed.\<close>

definition without :: "('k, 'v, 'w) memory \<Rightarrow> addr list \<Rightarrow> addr \<Rightarrow> ('k, 'v) node option" where
  "without s as = (\<lambda>a. if a \<in> set as then None else cells s a)"

text \<open>
  The node \<open>b\<close> of the store \<open>s'\<close> holds copies of the key and the data of the node \<open>a\<close>
  of the store \<open>s\<close>: what \<^verbatim>\<open>copy_key\<close> and \<^verbatim>\<open>copy_data\<close> returned for them.
\<close>

definition is_copy ::
  "('k, 'v, 'w) Map_t \<Rightarrow> ('k, 'v, 'w) memory \<Rightarrow> addr \<Rightarrow> ('k, 'v, 'w) memory \<Rightarrow> addr \<Rightarrow> bool"
  where
  "is_copy mp s a s' b \<longleftrightarrow>
     filled s' b \<and> (\<exists>w. key_at s' b = fst (copy_key mp (key_at s a) w)) \<and>
     (\<exists>w. data_at s' b = fst (copy_data mp (data_at s a) w))"

text \<open>
  The state of a client that stays within defined behaviour: every live map has lawful
  functions and is well formed in the store, and two live maps share no node.
\<close>

definition well_formed :: "('k, 'v, 'w) system \<Rightarrow> bool" where
  "well_formed \<sigma> \<longleftrightarrow>
     (\<forall>i m. i < length (maps \<sigma>) \<longrightarrow> maps \<sigma> ! i = Some m \<longrightarrow>
        lawful (compare_keys m) (copy_key m) \<and> (\<exists>as. map_inv (mem \<sigma>) m as)) \<and>
     (\<forall>i j m m2 as bs. i < length (maps \<sigma>) \<longrightarrow> j < length (maps \<sigma>) \<longrightarrow> i \<noteq> j \<longrightarrow>
        maps \<sigma> ! i = Some m \<longrightarrow> maps \<sigma> ! j = Some m2 \<longrightarrow>
        map_inv (mem \<sigma>) m as \<longrightarrow> map_inv (mem \<sigma>) m2 bs \<longrightarrow>
        set (first m # as) \<inter> set (first m2 # bs) = {})"

section \<open>Chains of nodes\<close>

lemma chain_None [simp]: "chain s None as = (as = [])"
  by (cases as) auto

lemma chain_Some: "chain s (Some a) as = (\<exists>q bs. as = a # bs \<and> next_at s a = Some q \<and> chain s q bs)"
  by (cases as) (auto split: option.splits)

lemma chain_unique: "chain s p as \<Longrightarrow> chain s p bs \<Longrightarrow> as = bs"
proof (induction as arbitrary: p bs)
  case Nil
  then show ?case by simp
next
  case (Cons a as)
  then show ?case by (cases bs) (auto split: option.splits)
qed

lemma chain_suffix: "chain s p (as @ b # bs) \<Longrightarrow> chain s (Some b) (b # bs)"
proof (induction as arbitrary: p)
  case Nil
  then show ?case by simp
next
  case (Cons a as)
  then show ?case by (fastforce split: option.splits)
qed

lemma chain_head_notin: "chain s p (a # as) \<Longrightarrow> a \<notin> set as"
proof
  assume c: "chain s p (a # as)" and "a \<in> set as"
  then obtain us vs where "as = us @ a # vs" by (meson split_list)
  with c have "chain s (Some a) (a # vs)" using chain_suffix[of s p "a # us" a vs] by simp
  moreover from c have "chain s (Some a) (a # as)" by simp
  ultimately have "a # vs = a # as" by (rule chain_unique)
  with \<open>as = us @ a # vs\<close> show False by simp
qed

lemma chain_distinct: "chain s p as \<Longrightarrow> distinct as"
proof (induction as arbitrary: p)
  case Nil
  then show ?case by simp
next
  case (Cons a as)
  from Cons.prems have "a \<notin> set as" by (rule chain_head_notin)
  moreover from Cons.prems obtain q where "chain s q as" by (auto split: option.splits)
  ultimately show ?case using Cons.IH by simp
qed

lemma chain_frame:
  "chain s p as \<Longrightarrow> (\<And>a. a \<in> set as \<Longrightarrow> next_at s' a = next_at s a) \<Longrightarrow> chain s' p as"
proof (induction as arbitrary: p)
  case Nil
  then show ?case by simp
next
  case (Cons a as)
  then show ?case by (auto split: option.splits)
qed

lemma get_next_at: "next_at s a = Some q \<Longrightarrow> get_next s (Some a) = Inr q"
  by (auto simp: next_at_def get_next_def load_def rd_def andThen_def split: option.splits field.splits)

lemma filled_get_key: "filled s a \<Longrightarrow> get_key s (Some a) = Inr (key_at s a)"
  by (auto simp: filled_def get_key_def key_at_def load_def rd_def andThen_def
      split: option.splits field.splits)

lemma filled_key_at: "filled s a \<Longrightarrow> \<exists>k. key_at s a = Some k"
  by (auto simp: filled_def key_at_def split: option.splits field.splits)

lemma filled_get_data: "filled s a \<Longrightarrow> get_data s (Some a) = Inr (data_at s a)"
  by (auto simp: filled_def get_data_def data_at_def load_def rd_def andThen_def
      split: option.splits field.splits)

lemma findPrevNode_loop_chain:
  assumes "chain s (Some c) (c # as)" and "\<forall>a\<in>set as. filled s a"
  shows "findPrevNode_loop s mp e (Some c) =
     Some (Inr (Some (last (c # takeWhile (above mp s e) as)),
                (case dropWhile (above mp s e) as of [] \<Rightarrow> False
                 | b # _ \<Rightarrow> compare_keys mp e (key_at s b) = 0)))"
  using assms
proof (induction as arbitrary: c)
  case Nil
  then have "next_at s c = Some None" by (auto split: option.splits)
  then show ?case
    by (subst findPrevNode_loop.simps) (simp add: get_next_at)
next
  case (Cons a as)
  from Cons.prems have n: "next_at s c = Some (Some a)" and ch: "chain s (Some a) (a # as)"
    by (auto split: option.splits)
  from Cons.prems have f: "filled s a" and fs: "\<forall>a\<in>set as. filled s a" by auto
  note IH = Cons.IH[OF ch fs]
  have step: "findPrevNode_loop s mp e (Some c) =
      (if compare_keys mp e (key_at s a) = 0 then Some (Inr (Some c, True))
       else if compare_keys mp e (key_at s a) < 0 then Some (Inr (Some c, False))
       else findPrevNode_loop s mp e (Some a))"
    by (subst findPrevNode_loop.simps)
       (simp add: get_next_at[OF n] filled_get_key[OF f] Let_def)
  show ?case
  proof (cases "above mp s e a")
    case True
    then have "0 < compare_keys mp e (key_at s a)" by (simp add: above_def)
    with True show ?thesis unfolding step IH by simp
  next
    case False
    then have "\<not> 0 < compare_keys mp e (key_at s a)" by (simp add: above_def)
    with False show ?thesis unfolding step by auto
  qed
qed

section \<open>Creation\<close>

lemmas create_defs = mapCreate_def malloc_outcome_def malloc_node_def initializeMap_def
  set_key_def set_data_def set_next_def store_def andThen_def

lemma mapCreate_absent:
  "cd = None \<or> ck = None \<or> fd = None \<or> fk = None \<or> cmp = None \<Longrightarrow>
   mapCreate s cd ck fd fk cmp = Inr (s, None)"
  by (auto simp: mapCreate_def split: option.splits)

lemma mapCreate_success:
  assumes "False \<notin> set (take 2 (mallocs s))"
  shows "\<exists>s' mp. mapCreate s (Some cd) (Some ck) (Some fd) (Some fk) (Some cmp) = Inr (s', Some mp) \<and>
     msize mp = 0 \<and> first mp = brk s \<and> iterator mp = Some (brk s) \<and>
     copy_data mp = cd \<and> copy_key mp = ck \<and> free_data mp = fd \<and> free_key mp = fk \<and>
     compare_keys mp = cmp \<and>
     cells s' = (cells s)(brk s \<mapsto> \<lparr>data = Val None, key = Val None, nxt = Val None\<rparr>) \<and>
     brk s' = Suc (brk s) \<and> world s' = world s \<and> mallocs s' = drop 2 (mallocs s)"
proof (cases "mallocs s")
  case Nil
  then show ?thesis by (simp add: create_defs)
next
  case (Cons b bs)
  with assms have b: "b" by auto
  show ?thesis
  proof (cases bs)
    case Nil
    with Cons b show ?thesis by (simp add: create_defs)
  next
    case (Cons c cs)
    with assms \<open>mallocs s = b # bs\<close> have "c" by auto
    with Cons \<open>mallocs s = b # bs\<close> b show ?thesis by (simp add: create_defs)
  qed
qed

lemma mapGetFirst_empty:
  "cells s (first mp) = Some n \<Longrightarrow> nxt n = Val None \<Longrightarrow> mapGetFirst s (Some mp) = Inr (Some mp, None)"
  by (simp add: mapGetFirst_def get_next_def load_def rd_def andThen_def)

text \<open>
  Claim C9. Whenever at least one of the five function arguments of \<^verbatim>\<open>mapCreate\<close> is \<^verbatim>\<open>NULL\<close>,
  the call returns \<^verbatim>\<open>NULL\<close> and leaves the store as it was. When all five are given and
  the two allocations succeed, it returns a map whose size is 0 and on which
  \<^verbatim>\<open>mapGetFirst\<close> returns \<^verbatim>\<open>NULL\<close> at once.
\<close>

theorem mapCreate_checks_arguments:
  "(cd = None \<or> ck = None \<or> fd = None \<or> fk = None \<or> cmp = None \<longrightarrow>
      mapCreate s cd ck fd fk cmp = Inr (s, None)) \<and>
   (cd \<noteq> None \<and> ck \<noteq> None \<and> fd \<noteq> None \<and> fk \<noteq> None \<and> cmp \<noteq> None \<and>
    False \<notin> set (take 2 (mallocs s)) \<longrightarrow>
      (\<exists>s' mp. mapCreate s cd ck fd fk cmp = Inr (s', Some mp) \<and> msize mp = 0 \<and>
         mapGetSize (Some mp) = 0 \<and> mapGetFirst s' (Some mp) = Inr (Some mp, None)))"
proof (intro conjI impI)
  assume "cd = None \<or> ck = None \<or> fd = None \<or> fk = None \<or> cmp = None"
  then show "mapCreate s cd ck fd fk cmp = Inr (s, None)" by (rule mapCreate_absent)
next
  assume a: "cd \<noteq> None \<and> ck \<noteq> None \<and> fd \<noteq> None \<and> fk \<noteq> None \<and> cmp \<noteq> None \<and>
    False \<notin> set (take 2 (mallocs s))"
  then obtain cd' ck' fd' fk' cmp' where
    e: "cd = Some cd'" "ck = Some ck'" "fd = Some fd'" "fk = Some fk'" "cmp = Some cmp'"
    by auto
  from a have "False \<notin> set (take 2 (mallocs s))" by simp
  from mapCreate_success[OF this, of cd' ck' fd' fk' cmp']
  obtain s' mp where r: "mapCreate s cd ck fd fk cmp = Inr (s', Some mp)" "msize mp = 0"
    "first mp = brk s"
    "cells s' = (cells s)(brk s \<mapsto> \<lparr>data = Val None, key = Val None, nxt = Val None\<rparr>)"
    unfolding e by blast
  have "mapGetFirst s' (Some mp) = Inr (Some mp, None)"
    by (rule mapGetFirst_empty[where n="\<lparr>data = Val None, key = Val None, nxt = Val None\<rparr>"])
       (simp_all add: r)
  with r show "\<exists>s' mp. mapCreate s cd ck fd fk cmp = Inr (s', Some mp) \<and> msize mp = 0 \<and>
         mapGetSize (Some mp) = 0 \<and> mapGetFirst s' (Some mp) = Inr (Some mp, None)"
    by (auto simp: mapGetSize_def)
qed

theorem mapCreate_checks_arguments_witness:
  "mapCreate (mem (start [True, True] [])) None (Some copyInt) (Some freeInt) (Some freeInt)
      (Some compareInts) = Inr (mem (start [True, True] []), None) \<and>
   (\<exists>s' mp. mapCreate (mem (start [True, True] [])) (Some copyInt) (Some copyInt) (Some freeInt)
        (Some freeInt) (Some compareInts) = Inr (s', Some mp) \<and> msize mp = 0 \<and>
      mapGetSize (Some mp) = 0 \<and> mapGetFirst s' (Some mp) = Inr (Some mp, None))"
  using mapCreate_checks_arguments[of None "Some copyInt" "Some freeInt" "Some freeInt"
      "Some compareInts" "mem (start [True, True] [])"]
    mapCreate_checks_arguments[of "Some copyInt" "Some copyInt" "Some freeInt" "Some freeInt"
      "Some compareInts" "mem (start [True, True] [])"]
  by (simp add: start_def)

section \<open>Searching, inserting and replacing\<close>


lemma chain_last_next:
  "chain s p (xs @ ys) \<Longrightarrow> xs \<noteq> [] \<Longrightarrow>
   next_at s (last xs) = Some (case ys of [] \<Rightarrow> None | y # _ \<Rightarrow> Some y)"
proof (induction xs arbitrary: p)
  case Nil
  then show ?case by simp
next
  case (Cons a xs)
  show ?case
  proof (cases "xs = []")
    case True
    with Cons.prems show ?thesis by (cases ys) (auto split: option.splits)
  next
    case False
    with Cons show ?thesis by (auto split: option.splits)
  qed
qed

lemma next_atD: "next_at s a = Some q \<Longrightarrow> \<exists>n. cells s a = Some n \<and> nxt n = Val q"
  by (auto simp: next_at_def split: option.splits field.splits)

lemma not_Indeterminate: "(f \<noteq> Indeterminate) = (\<exists>x. f = Val x)"
  by (cases f) auto

lemma filledD:
  "filled s a \<Longrightarrow> \<exists>n k d. cells s a = Some n \<and> key n = Val (Some k) \<and> data n = Val d"
  by (auto simp: filled_def not_Indeterminate split: option.splits field.splits)

lemma map_inv_chain: "map_inv s mp as \<Longrightarrow> chain s (Some (first mp)) (first mp # as)"
  by (simp add: map_inv_def)

lemma map_inv_filled: "map_inv s mp as \<Longrightarrow> a \<in> set as \<Longrightarrow> filled s a"
  by (simp add: map_inv_def list_all_iff)

lemma findPrevNode_inv:
  assumes "map_inv s mp as"
  shows "findPrevNode s mp e =
     Some (Inr (Some (last (first mp # takeWhile (above mp s e) as)),
                (case dropWhile (above mp s e) as of [] \<Rightarrow> False
                 | b # _ \<Rightarrow> compare_keys mp e (key_at s b) = 0)))"
  unfolding findPrevNode_def
  using assms by (intro findPrevNode_loop_chain) (auto simp: map_inv_def list_all_iff)

lemma prev_next:
  assumes "map_inv s mp as"
  shows "next_at s (last (first mp # takeWhile P as)) =
     Some (case dropWhile P as of [] \<Rightarrow> None | b # _ \<Rightarrow> Some b)"
proof -
  have "chain s (Some (first mp)) ((first mp # takeWhile P as) @ dropWhile P as)"
    using assms by (simp add: map_inv_def)
  from chain_last_next[OF this] show ?thesis by simp
qed

lemma mapPut_found:
  assumes inv: "map_inv s mp as"
    and dw: "dropWhile (above mp s (Some k)) as = b # rest"
    and eq: "compare_keys mp (Some k) (key_at s b) = 0"
    and cp: "copy_data mp (Some d) (free_data mp (data_at s b) (world s)) = (d', w')"
  shows "\<exists>nb. cells s b = Some nb \<and>
     mapPut s (Some mp) (Some k) (Some d) =
       Some (Inr (s\<lparr>world := w', cells := (cells s)(b \<mapsto> nb\<lparr>data := Val d'\<rparr>)\<rparr>,
                  if d' = None then Some mp else Some (mp\<lparr>iterator := None\<rparr>),
                  if d' = None then MAP_OUT_OF_MEMORY else MAP_SUCCESS))"
proof -
  define prev where "prev = last (first mp # takeWhile (above mp s (Some k)) as)"
  have "b \<in> set as" using dw by (metis list.set_intros(1) set_dropWhileD)
  then have "filled s b" using inv by (rule map_inv_filled[rotated])
  then obtain nb kb db where nb: "cells s b = Some nb" "key nb = Val (Some kb)" "data nb = Val db"
    by (auto dest: filledD)
  have "next_at s prev = Some (Some b)"
    using prev_next[OF inv, of "above mp s (Some k)"] dw by (simp add: prev_def)
  then obtain np where np: "cells s prev = Some np" "nxt np = Val (Some b)"
    by (auto dest: next_atD)
  have da: "data_at s b = db" using nb by (simp add: data_at_def)
  have fp: "findPrevNode s mp (Some k) = Some (Inr (Some prev, True))"
    using findPrevNode_inv[OF inv, of "Some k"] dw eq by (simp add: prev_def)
  have "mapPut s (Some mp) (Some k) (Some d) =
       Some (Inr (s\<lparr>world := w', cells := (cells s)(b \<mapsto> nb\<lparr>data := Val d'\<rparr>)\<rparr>,
                  if d' = None then Some mp else Some (mp\<lparr>iterator := None\<rparr>),
                  if d' = None then MAP_OUT_OF_MEMORY else MAP_SUCCESS))"
    using cp nb np unfolding da
    by (cases "prev = b")
       (simp_all add: mapPut_def fp andThenP_def andThen_def get_next_def get_data_def load_def
         rd_def set_data_def store_def)
  with nb show ?thesis by blast
qed


subsection \<open>The order given by a lawful comparison\<close>

lemma sgn_flip_less: "sgn (a::int) = - sgn b \<Longrightarrow> (a < 0) = (0 < b)"
  by (auto simp: sgn_if split: if_splits)

lemma sgn_flip_zero: "sgn (a::int) = - sgn b \<Longrightarrow> (a = 0) = (b = 0)"
  by (auto simp: sgn_if split: if_splits)

lemma lawful_sgn:
  "lawful cmp ck \<Longrightarrow> sgn (cmp (Some x) (Some y)) = - sgn (cmp (Some y) (Some x))"
  unfolding lawful_def by blast

lemma lawful_flip:
  "lawful cmp ck \<Longrightarrow> (cmp (Some x) (Some y) < 0) = (0 < cmp (Some y) (Some x))"
  by (rule sgn_flip_less) (rule lawful_sgn)

lemma lawful_zero:
  "lawful cmp ck \<Longrightarrow> (cmp (Some x) (Some y) = 0) = (cmp (Some y) (Some x) = 0)"
  by (rule sgn_flip_zero) (rule lawful_sgn)

lemma lawful_trans:
  "lawful cmp ck \<Longrightarrow> cmp (Some x) (Some y) \<le> 0 \<Longrightarrow> cmp (Some y) (Some z) \<le> 0 \<Longrightarrow>
   cmp (Some x) (Some z) \<le> 0"
  unfolding lawful_def by blast

lemma lawful_less_le:
  assumes l: "lawful cmp ck" and xy: "cmp (Some x) (Some y) < 0" and yz: "cmp (Some y) (Some z) \<le> 0"
  shows "cmp (Some x) (Some z) < 0"
proof (rule ccontr)
  assume "\<not> cmp (Some x) (Some z) < 0"
  then have "cmp (Some z) (Some x) \<le> 0"
    using lawful_flip[OF l, of z x] lawful_zero[OF l, of x z] by linarith
  with yz have "cmp (Some y) (Some x) \<le> 0" by (rule lawful_trans[OF l])
  with xy show False using lawful_flip[OF l, of x y] by linarith
qed

lemma lawful_le_less:
  assumes l: "lawful cmp ck" and xy: "cmp (Some x) (Some y) \<le> 0" and yz: "cmp (Some y) (Some z) < 0"
  shows "cmp (Some x) (Some z) < 0"
proof (rule ccontr)
  assume "\<not> cmp (Some x) (Some z) < 0"
  then have "cmp (Some z) (Some x) \<le> 0"
    using lawful_flip[OF l, of z x] lawful_zero[OF l, of x z] by linarith
  from this xy have "cmp (Some z) (Some y) \<le> 0" by (rule lawful_trans[OF l])
  with yz show False using lawful_flip[OF l, of y z] by linarith
qed

lemma lawful_copy:
  "lawful cmp ck \<Longrightarrow> ck (Some x) w = (Some y, w') \<Longrightarrow> cmp (Some x) (Some y) = 0"
proof -
  assume l: "lawful cmp ck" and c: "ck (Some x) w = (Some y, w')"
  from c have "fst (ck (Some x) w) = Some y" by simp
  with l show ?thesis unfolding lawful_def by blast
qed

subsection \<open>Where the search stops\<close>

lemma map_inv_sorted: "map_inv s mp as \<Longrightarrow> sorted_wrt (before mp s) as"
  by (simp add: map_inv_def)

lemma takeWhile_above: "a \<in> set (takeWhile (above mp s e) as) \<Longrightarrow> 0 < compare_keys mp e (key_at s a)"
  by (auto dest: set_takeWhileD simp: above_def)

lemma dropWhile_not_above:
  "dropWhile (above mp s e) as = b # rest \<Longrightarrow> compare_keys mp e (key_at s b) \<le> 0"
  using hd_dropWhile[of "above mp s e" as] by (auto simp: above_def)

lemma found_iff_present:
  assumes inv: "map_inv s mp as" and l: "lawful (compare_keys mp) (copy_key mp)"
  shows "present s mp as (Some k) =
     (case dropWhile (above mp s (Some k)) as of [] \<Rightarrow> False
      | b # _ \<Rightarrow> compare_keys mp (Some k) (key_at s b) = 0)"
proof
  assume "case dropWhile (above mp s (Some k)) as of [] \<Rightarrow> False
      | b # _ \<Rightarrow> compare_keys mp (Some k) (key_at s b) = 0"
  then obtain b rest where dw: "dropWhile (above mp s (Some k)) as = b # rest"
    and eq: "compare_keys mp (Some k) (key_at s b) = 0"
    by (auto split: list.splits)
  from dw have "b \<in> set as" by (metis list.set_intros(1) set_dropWhileD)
  with eq show "present s mp as (Some k)" by (auto simp: present_def list_ex_iff)
next
  let ?P = "above mp s (Some k)"
  assume "present s mp as (Some k)"
  then obtain a where a: "a \<in> set as" "compare_keys mp (Some k) (key_at s a) = 0"
    by (auto simp: present_def list_ex_iff)
  have "a \<notin> set (takeWhile ?P as)" using a(2) takeWhile_above[of a mp s "Some k" as] by auto
  moreover have "set as = set (takeWhile ?P as) \<union> set (dropWhile ?P as)"
    by (metis set_append takeWhile_dropWhile_id)
  ultimately have "a \<in> set (dropWhile ?P as)" using a(1) by auto
  then obtain b rest where dw: "dropWhile ?P as = b # rest" by (cases "dropWhile ?P as") auto
  have le: "compare_keys mp (Some k) (key_at s b) \<le> 0" using dw by (rule dropWhile_not_above)
  have "compare_keys mp (Some k) (key_at s b) = 0"
  proof (cases "a = b")
    case True
    with a show ?thesis by simp
  next
    case False
    with \<open>a \<in> set (dropWhile ?P as)\<close> dw have ar: "a \<in> set rest" by simp
    have "sorted_wrt (before mp s) (takeWhile ?P as @ b # rest)"
      using map_inv_sorted[OF inv] dw by (metis takeWhile_dropWhile_id)
    with ar have ba: "before mp s b a" by (auto simp: sorted_wrt_append)
    have "b \<in> set as" using dw by (metis list.set_intros(1) set_dropWhileD)
    then obtain kb where kb: "key_at s b = Some kb"
      using map_inv_filled[OF inv] filled_key_at by blast
    obtain ka where ka: "key_at s a = Some ka"
      using map_inv_filled[OF inv a(1)] filled_key_at by blast
    from ba have "compare_keys mp (Some kb) (Some ka) < 0" by (simp add: before_def kb ka)
    moreover have "compare_keys mp (Some ka) (Some k) \<le> 0"
      using a(2) lawful_zero[OF l, of k ka] by (simp add: ka)
    ultimately have "compare_keys mp (Some kb) (Some k) < 0" by (rule lawful_less_le[OF l])
    then have "0 < compare_keys mp (Some k) (Some kb)" using lawful_flip[OF l] by blast
    with le show ?thesis by (simp add: kb)
  qed
  with dw show "case dropWhile ?P as of [] \<Rightarrow> False
      | b # _ \<Rightarrow> compare_keys mp (Some k) (key_at s b) = 0" by simp
qed

lemma mapContains_inv:
  assumes inv: "map_inv s mp as" and l: "lawful (compare_keys mp) (copy_key mp)"
  shows "mapContains s (Some mp) (Some k) = Some (Inr (present s mp as (Some k)))"
  by (simp add: mapContains_def findPrevNode_inv[OF inv] andThenP_def found_iff_present[OF inv l])


subsection \<open>Linking and unlinking a node\<close>

lemma chain_insert:
  assumes "chain s p (xs @ ys)" and "xs \<noteq> []" and "new \<notin> set (xs @ ys)"
    and "next_at s' new = next_at s (last xs)"
    and "next_at s' (last xs) = Some (Some new)"
    and "\<And>a. a \<in> set (xs @ ys) \<Longrightarrow> a \<noteq> last xs \<Longrightarrow> next_at s' a = next_at s a"
  shows "chain s' p (xs @ new # ys)"
  using assms
proof (induction xs arbitrary: p)
  case Nil
  then show ?case by simp
next
  case (Cons a xs)
  from Cons.prems(1) have d: "distinct ((a # xs) @ ys)" by (rule chain_distinct)
  show ?case
  proof (cases "xs = []")
    case True
    from Cons.prems(1) True obtain q where q: "p = Some a" "next_at s a = Some q" "chain s q ys"
      by (auto split: option.splits)
    have "chain s' q ys"
      using q(3) by (rule chain_frame) (use Cons.prems d True in auto)
    with q Cons.prems True show ?thesis by simp
  next
    case False
    from Cons.prems(1) obtain q where q: "p = Some a" "next_at s a = Some q" "chain s q (xs @ ys)"
      by (auto split: option.splits)
    from d False have "a \<noteq> last xs" by auto
    then have "next_at s' a = next_at s a" using Cons.prems(6)[of a] False by simp
    moreover have "chain s' q (xs @ new # ys)"
      using q(3) False Cons.prems by (intro Cons.IH) auto
    ultimately show ?thesis using q by simp
  qed
qed

lemma chain_remove:
  assumes "chain s p (xs @ b # ys)" and "xs \<noteq> []"
    and "next_at s' (last xs) = next_at s b"
    and "\<And>a. a \<in> set (xs @ ys) \<Longrightarrow> a \<noteq> last xs \<Longrightarrow> next_at s' a = next_at s a"
  shows "chain s' p (xs @ ys)"
  using assms
proof (induction xs arbitrary: p)
  case Nil
  then show ?case by simp
next
  case (Cons a xs)
  from Cons.prems(1) have d: "distinct ((a # xs) @ b # ys)" by (rule chain_distinct)
  show ?case
  proof (cases "xs = []")
    case True
    from Cons.prems(1) True obtain q where q: "p = Some a" "next_at s b = Some q" "chain s q ys"
      by (auto split: option.splits)
    have "chain s' q ys"
      using q(3) by (rule chain_frame) (use Cons.prems d True in auto)
    with q Cons.prems True show ?thesis by simp
  next
    case False
    from Cons.prems(1) obtain q where q: "p = Some a" "next_at s a = Some q"
      "chain s q (xs @ b # ys)"
      by (auto split: option.splits)
    from d False have "a \<noteq> last xs" by auto
    then have "next_at s' a = next_at s a" using Cons.prems(4)[of a] False by simp
    moreover have "chain s' q (xs @ ys)"
      using q(3) False Cons.prems by (intro Cons.IH) auto
    ultimately show ?thesis using q by simp
  qed
qed

subsection \<open>The invariant under changes elsewhere\<close>

lemma filled_cong: "cells s' a = cells s a \<Longrightarrow> filled s' a = filled s a"
  by (simp add: filled_def)

lemma key_at_cong: "cells s' a = cells s a \<Longrightarrow> key_at s' a = key_at s a"
  by (simp add: key_at_def)

lemma data_at_cong: "cells s' a = cells s a \<Longrightarrow> data_at s' a = data_at s a"
  by (simp add: data_at_def)

lemma next_at_cong: "cells s' a = cells s a \<Longrightarrow> next_at s' a = next_at s a"
  by (simp add: next_at_def)

lemma sorted_wrt_key_cong:
  assumes "sorted_wrt (before mp s) as" and "\<And>a. a \<in> set as \<Longrightarrow> key_at s' a = key_at s a"
    and "compare_keys mp' = compare_keys mp"
  shows "sorted_wrt (before mp' s') as"
  using assms(1)
  by (rule sorted_wrt_mono_rel[rotated]) (simp add: before_def assms)

lemma map_inv_same_fields:
  assumes inv: "map_inv s mp as"
    and nx: "\<And>a. a \<in> set (first mp # as) \<Longrightarrow> next_at s' a = next_at s a"
    and fl: "\<And>a. a \<in> set as \<Longrightarrow> filled s' a"
    and ky: "\<And>a. a \<in> set as \<Longrightarrow> key_at s' a = key_at s a"
    and bk: "brk s \<le> brk s'"
    and mp: "first mp' = first mp" "msize mp' = msize mp" "compare_keys mp' = compare_keys mp"
  shows "map_inv s' mp' as"
proof -
  have "chain s' (Some (first mp)) (first mp # as)"
    using map_inv_chain[OF inv] by (rule chain_frame) (rule nx)
  moreover have "sorted_wrt (before mp' s') as"
    using map_inv_sorted[OF inv] ky mp(3) by (rule sorted_wrt_key_cong)
  moreover have "list_all (\<lambda>a. a < brk s') (first mp # as)"
    using inv bk unfolding map_inv_def list_all_iff by fastforce
  ultimately show ?thesis using inv fl mp by (simp add: map_inv_def list_all_iff)
qed

lemma map_inv_frame:
  assumes inv: "map_inv s mp as"
    and same: "\<And>a. a \<in> set (first mp # as) \<Longrightarrow> cells s' a = cells s a"
    and bk: "brk s \<le> brk s'"
    and mp: "first mp' = first mp" "msize mp' = msize mp" "compare_keys mp' = compare_keys mp"
  shows "map_inv s' mp' as"
  using inv
proof (rule map_inv_same_fields)
  fix a assume "a \<in> set as"
  then have c: "cells s' a = cells s a" using same by simp
  show "filled s' a" using map_inv_filled[OF inv \<open>a \<in> set as\<close>] filled_cong[OF c] by simp
  show "key_at s' a = key_at s a" using c by (rule key_at_cong)
qed (use same bk mp in \<open>auto intro: next_at_cong\<close>)

lemma map_inv_below: "map_inv s mp as \<Longrightarrow> a \<in> set (first mp # as) \<Longrightarrow> a < brk s"
  unfolding map_inv_def list_all_iff by blast

lemma map_inv_distinct: "map_inv s mp as \<Longrightarrow> distinct (first mp # as)"
  using chain_distinct map_inv_chain by blast

lemma map_inv_size: "map_inv s mp as \<Longrightarrow> msize mp = int (length as)"
  by (simp add: map_inv_def)


subsection \<open>mapPut\<close>

lemma malloc_outcome_fields:
  "malloc_outcome s = (ok, s0) \<Longrightarrow>
   cells s0 = cells s \<and> brk s0 = brk s \<and> world s0 = world s \<and> mallocs s0 = tl (mallocs s)"
  by (auto simp: malloc_outcome_def split: list.splits)

lemma malloc_outcome_ok:
  "malloc_outcome s = (ok, s0) \<Longrightarrow> ok = (False \<notin> set (take 1 (mallocs s)))"
  by (auto simp: malloc_outcome_def split: list.splits)

lemma prev_in: "last (c # takeWhile P as) \<in> set (c # as)"
proof (cases "takeWhile P as = []")
  case True
  then show ?thesis by simp
next
  case False
  then have "last (takeWhile P as) \<in> set (takeWhile P as)" by (rule last_in_set)
  then have "last (takeWhile P as) \<in> set as" by (rule set_takeWhileD[THEN conjunct1])
  with False show ?thesis by simp
qed

lemmas exec_defs = andThenP_def andThen_def get_next_def get_data_def get_key_def load_def
  rd_def set_data_def set_key_def set_next_def store_def free_def freeNode_def

lemma mapPut_absent_no_memory:
  assumes inv: "map_inv s mp as"
    and nf: "\<not> (case dropWhile (above mp s (Some k)) as of [] \<Rightarrow> False
               | b # _ \<Rightarrow> compare_keys mp (Some k) (key_at s b) = 0)"
    and mo: "malloc_outcome s = (False, s0)"
  shows "mapPut s (Some mp) (Some k) (Some d) = Some (Inr (s0, Some mp, MAP_OUT_OF_MEMORY))"
  using nf mo
  by (simp add: mapPut_def findPrevNode_inv[OF inv] andThenP_def andThen_def createNewNode_def
      malloc_node_def)

lemma mapPut_absent_copy_failed:
  assumes inv: "map_inv s mp as"
    and nf: "\<not> (case dropWhile (above mp s (Some k)) as of [] \<Rightarrow> False
               | b # _ \<Rightarrow> compare_keys mp (Some k) (key_at s b) = 0)"
    and mo: "malloc_outcome s = (True, s0)"
    and ck: "copy_key mp (Some k) (world s) = (k', w1)"
    and cd: "copy_data mp (Some d) w1 = (d', w2)"
    and fail: "k' = None \<or> d' = None"
  shows "mapPut s (Some mp) (Some k) (Some d) =
     Some (Inr (s0\<lparr>cells := (cells s)(brk s := None), brk := Suc (brk s),
                    world := free_key mp k' (free_data mp d' w2)\<rparr>,
                Some mp, MAP_OUT_OF_MEMORY))"
proof -
  note f = malloc_outcome_fields[OF mo]
  show ?thesis
    using nf mo ck cd fail f
    by (auto simp add: mapPut_def findPrevNode_inv[OF inv] createNewNode_def malloc_node_def
        exec_defs)
qed

lemma mapPut_absent_linked:
  assumes inv: "map_inv s mp as"
    and nf: "\<not> (case dropWhile (above mp s (Some k)) as of [] \<Rightarrow> False
               | b # _ \<Rightarrow> compare_keys mp (Some k) (key_at s b) = 0)"
    and mo: "malloc_outcome s = (True, s0)"
    and ck: "copy_key mp (Some k) (world s) = (Some k', w1)"
    and cd: "copy_data mp (Some d) w1 = (Some d', w2)"
    and prev: "prev = last (first mp # takeWhile (above mp s (Some k)) as)"
  shows "\<exists>np q. cells s prev = Some np \<and> nxt np = Val q \<and>
     q = (case dropWhile (above mp s (Some k)) as of [] \<Rightarrow> None | b # _ \<Rightarrow> Some b) \<and>
     mapPut s (Some mp) (Some k) (Some d) =
       (if INT_MAX \<le> msize mp then Some (Inl SignedOverflow)
        else Some (Inr (s0\<lparr>cells := (cells s)
                            (brk s \<mapsto> \<lparr>data = Val (Some d'), key = Val (Some k'), nxt = Val q\<rparr>,
                             prev \<mapsto> np\<lparr>nxt := Val (Some (brk s))\<rparr>),
                          brk := Suc (brk s), world := w2\<rparr>,
                      Some (mp\<lparr>msize := msize mp + 1, iterator := None\<rparr>), MAP_SUCCESS)))"
proof -
  note f = malloc_outcome_fields[OF mo]
  let ?q = "case dropWhile (above mp s (Some k)) as of [] \<Rightarrow> None | b # _ \<Rightarrow> Some b"
  have "next_at s prev = Some ?q"
    using prev_next[OF inv, of "above mp s (Some k)"] by (simp add: prev)
  then obtain np where np: "cells s prev = Some np" "nxt np = Val ?q"
    by (auto dest: next_atD)
  have "prev \<in> set (first mp # as)" unfolding prev by (rule prev_in)
  then have "prev < brk s" using inv by (rule map_inv_below[rotated])
  then have ne: "prev \<noteq> brk s" "brk s \<noteq> prev" by auto
  have fp: "findPrevNode s mp (Some k) = Some (Inr (Some prev, False))"
    using findPrevNode_inv[OF inv, of "Some k"] nf by (simp add: prev)
  have "mapPut s (Some mp) (Some k) (Some d) =
       (if INT_MAX \<le> msize mp then Some (Inl SignedOverflow)
        else Some (Inr (s0\<lparr>cells := (cells s)
                            (brk s \<mapsto> \<lparr>data = Val (Some d'), key = Val (Some k'), nxt = Val ?q\<rparr>,
                             prev \<mapsto> np\<lparr>nxt := Val (Some (brk s))\<rparr>),
                          brk := Suc (brk s), world := w2\<rparr>,
                      Some (mp\<lparr>msize := msize mp + 1, iterator := None\<rparr>), MAP_SUCCESS)))"
    using mo ck cd f np ne
    by (simp add: mapPut_def fp createNewNode_def malloc_node_def insertNewNode_def exec_defs)
  with np show ?thesis by blast
qed


lemma map_inv_key: "map_inv s mp as \<Longrightarrow> a \<in> set as \<Longrightarrow> \<exists>k. key_at s a = Some k"
  using map_inv_filled filled_key_at by blast

lemma map_inv_insert:
  assumes inv: "map_inv s mp as" and l: "lawful (compare_keys mp) (copy_key mp)"
    and nf: "\<not> (case dropWhile (above mp s (Some k)) as of [] \<Rightarrow> False
               | b # _ \<Rightarrow> compare_keys mp (Some k) (key_at s b) = 0)"
    and ck: "copy_key mp (Some k) w = (Some k', w1)"
    and prev: "prev = last (first mp # takeWhile (above mp s (Some k)) as)"
    and np: "cells s prev = Some np"
    and q: "q = (case dropWhile (above mp s (Some k)) as of [] \<Rightarrow> None | b # _ \<Rightarrow> Some b)"
    and cells: "cells s' = (cells s)
         (brk s \<mapsto> \<lparr>data = Val d', key = Val (Some k'), nxt = Val q\<rparr>,
          prev \<mapsto> np\<lparr>nxt := Val (Some (brk s))\<rparr>)"
    and bk: "brk s' = Suc (brk s)"
    and mp: "first mp' = first mp" "msize mp' = msize mp + 1" "compare_keys mp' = compare_keys mp"
  shows "map_inv s' mp' (takeWhile (above mp s (Some k)) as @ brk s # dropWhile (above mp s (Some k)) as)"
proof -
  let ?P = "above mp s (Some k)"
  let ?pre = "takeWhile ?P as" and ?post = "dropWhile ?P as"
  let ?new = "brk s"
  have set_as: "set ?pre \<union> set ?post = set as"
    by (metis set_append takeWhile_dropWhile_id)
  have len_as: "length ?pre + length ?post = length as"
    by (simp flip: length_append)
  have pin: "prev \<in> set (first mp # as)" unfolding prev by (rule prev_in)
  have below: "\<And>a. a \<in> set (first mp # as) \<Longrightarrow> a < brk s"
    using inv by (rule map_inv_below)
  have new_notin: "?new \<notin> set (first mp # as)"
  proof
    assume "?new \<in> set (first mp # as)"
    then have "?new < brk s" by (rule below)
    then show False by simp
  qed
  with pin have ne: "prev \<noteq> ?new" by auto
  have old: "\<And>a. a \<in> set (first mp # as) \<Longrightarrow> a \<noteq> prev \<Longrightarrow> cells s' a = cells s a"
    using new_notin by (auto simp: cells)
  have key_old: "\<And>a. a \<in> set (first mp # as) \<Longrightarrow> key_at s' a = key_at s a"
  proof -
    fix a assume a: "a \<in> set (first mp # as)"
    show "key_at s' a = key_at s a"
    proof (cases "a = prev")
      case True
      then show ?thesis using np ne by (simp add: key_at_def cells)
    next
      case False
      then show ?thesis using old[OF a] by (intro key_at_cong) simp
    qed
  qed
  have filled_old: "\<And>a. a \<in> set as \<Longrightarrow> filled s' a"
  proof -
    fix a assume a: "a \<in> set as"
    then have fa: "filled s a" using inv by (rule map_inv_filled[rotated])
    show "filled s' a"
    proof (cases "a = prev")
      case True
      then show ?thesis using np ne fa
        by (auto simp: filled_def cells split: field.splits option.splits)
    next
      case False
      then have "cells s' a = cells s a" using old[of a] a by simp
      then show ?thesis using fa filled_cong by blast
    qed
  qed
  have knew: "key_at s' ?new = Some k'" using ne by (simp add: key_at_def cells)
  have fnew: "filled s' ?new" using ne by (simp add: filled_def cells)
  have kk': "compare_keys mp (Some k) (Some k') = 0" using l ck by (rule lawful_copy)
  then have k'k: "compare_keys mp (Some k') (Some k) = 0" using lawful_zero[OF l] by blast
  have ch: "chain s' (Some (first mp)) ((first mp # ?pre) @ ?new # ?post)"
  proof (rule chain_insert)
    show "chain s (Some (first mp)) ((first mp # ?pre) @ ?post)"
      using map_inv_chain[OF inv] by simp
    show "first mp # ?pre \<noteq> []" by simp
    show "?new \<notin> set ((first mp # ?pre) @ ?post)" using new_notin set_as by auto
    have "next_at s prev = Some q"
      using prev_next[OF inv, of ?P] by (simp add: prev q)
    then show "next_at s' ?new = next_at s (last (first mp # ?pre))"
      using ne by (simp add: prev next_at_def cells)
    show "next_at s' (last (first mp # ?pre)) = Some (Some ?new)"
      unfolding prev[symmetric] using ne by (simp add: next_at_def cells)
    fix a assume "a \<in> set ((first mp # ?pre) @ ?post)" "a \<noteq> last (first mp # ?pre)"
    then have "a \<in> set (first mp # as)" "a \<noteq> prev"
      using set_as prev by auto
    then show "next_at s' a = next_at s a" using old by (intro next_at_cong) simp
  qed
  have sorted_old: "sorted_wrt (before mp' s') as"
    using map_inv_sorted[OF inv] by (rule sorted_wrt_key_cong) (use key_old mp(3) in auto)
  have pre_new: "before mp' s' a ?new" if "a \<in> set ?pre" for a
  proof -
    from that have a: "a \<in> set as" by (rule set_takeWhileD[THEN conjunct1])
    then obtain ka where ka: "key_at s a = Some ka" using map_inv_key[OF inv] by blast
    have "0 < compare_keys mp (Some k) (Some ka)" using takeWhile_above[OF that] ka by simp
    then have "compare_keys mp (Some ka) (Some k) < 0" using lawful_flip[OF l] by blast
    then have "compare_keys mp (Some ka) (Some k') < 0"
      using kk' by (intro lawful_less_le[OF l, of ka k k']) auto
    then show ?thesis using key_old[of a] a ka knew by (simp add: before_def mp)
  qed
  have new_post: "before mp' s' ?new a" if "a \<in> set ?post" for a
  proof -
    from that have a: "a \<in> set as" by (rule set_dropWhileD)
    then obtain ka where ka: "key_at s a = Some ka" using map_inv_key[OF inv] by blast
    from that obtain b rest where dw: "?post = b # rest" by (cases ?post) auto
    have b: "b \<in> set as" using dw by (metis list.set_intros(1) set_dropWhileD)
    then obtain kb where kb: "key_at s b = Some kb" using map_inv_key[OF inv] by blast
    have "compare_keys mp (Some k) (key_at s b) \<le> 0" using dw by (rule dropWhile_not_above)
    moreover have "compare_keys mp (Some k) (key_at s b) \<noteq> 0" using nf dw by simp
    ultimately have kb_less: "compare_keys mp (Some k) (Some kb) < 0" by (simp add: kb)
    have "compare_keys mp (Some k) (Some ka) < 0"
    proof (cases "a = b")
      case True
      with kb_less ka kb show ?thesis by simp
    next
      case False
      with that dw have "a \<in> set rest" by simp
      moreover have "sorted_wrt (before mp s) (?pre @ b # rest)"
        using map_inv_sorted[OF inv] dw by (metis takeWhile_dropWhile_id)
      ultimately have "before mp s b a" by (auto simp: sorted_wrt_append)
      then have "compare_keys mp (Some kb) (Some ka) \<le> 0" by (simp add: before_def ka kb)
      with kb_less show ?thesis by (rule lawful_less_le[OF l])
    qed
    with k'k have "compare_keys mp (Some k') (Some ka) < 0"
      by (intro lawful_le_less[OF l, of k' k ka]) auto
    then show ?thesis using key_old[of a] a ka knew by (simp add: before_def mp)
  qed
  have "sorted_wrt (before mp' s') (?pre @ ?post)" using sorted_old by simp
  then have "sorted_wrt (before mp' s') ?pre \<and> sorted_wrt (before mp' s') ?post \<and>
      (\<forall>x\<in>set ?pre. \<forall>y\<in>set ?post. before mp' s' x y)"
    unfolding sorted_wrt_append .
  then have sorted: "sorted_wrt (before mp' s') (?pre @ ?new # ?post)"
    using pre_new new_post by (simp add: sorted_wrt_append)
  have len: "msize mp' = int (length (?pre @ ?new # ?post))"
    using map_inv_size[OF inv] mp(2) len_as by simp
  have fl: "list_all (filled s') (?pre @ ?new # ?post)"
    using filled_old fnew set_as unfolding list_all_iff by auto
  have bl: "list_all (\<lambda>a. a < brk s') (first mp # ?pre @ ?new # ?post)"
    unfolding list_all_iff bk
  proof
    fix a assume "a \<in> set (first mp # ?pre @ ?new # ?post)"
    then have "a = ?new \<or> a \<in> set (first mp # as)" using set_as by auto
    then show "a < Suc (brk s)" using below by (auto simp: less_Suc_eq)
  qed
  show ?thesis
    unfolding map_inv_def using ch sorted len fl bl by (simp add: mp)
qed

lemma map_inv_replace:
  assumes inv: "map_inv s mp as" and b: "b \<in> set as" and nb: "cells s b = Some nb"
    and cells: "cells s' = (cells s)(b \<mapsto> nb\<lparr>data := Val d'\<rparr>)"
    and bk: "brk s' = brk s"
    and mp: "first mp' = first mp" "msize mp' = msize mp" "compare_keys mp' = compare_keys mp"
  shows "map_inv s' mp' as"
  using inv
proof (rule map_inv_same_fields)
  fix a assume "a \<in> set (first mp # as)"
  show "next_at s' a = next_at s a" using nb by (simp add: next_at_def cells)
next
  fix a assume a: "a \<in> set as"
  show "key_at s' a = key_at s a" using nb by (simp add: key_at_def cells)
  show "filled s' a" using map_inv_filled[OF inv a] nb
    by (auto simp: filled_def cells split: option.splits field.splits)
qed (use bk mp in auto)

subsection \<open>The outcomes of mapPut\<close>


lemma same_functions_refl: "same_functions mp mp"
  by (simp add: same_functions_def)

lemma same_functions_upd:
  "same_functions mp (mp\<lparr>iterator := i\<rparr>)" "same_functions mp (mp\<lparr>msize := n\<rparr>)"
  "same_functions mp (mp\<lparr>msize := n, iterator := i\<rparr>)"
  by (simp_all add: same_functions_def)

lemma evolves_unchanged:
  assumes inv: "map_inv s mp as" and c: "cells s' = cells s" and b: "brk s' = brk s"
    and mp: "first mp' = first mp" "msize mp' = msize mp" "same_functions mp mp'"
  shows "evolves s mp as s' mp' as"
proof -
  have "map_inv s' mp' as"
    using inv by (rule map_inv_frame) (use c b mp in \<open>auto simp: same_functions_def\<close>)
  then show ?thesis using c b mp by (simp add: evolves_def untouched_def)
qed

text \<open>Every outcome of \<^verbatim>\<open>mapPut\<close> on a well-formed map, as one case distinction.\<close>

lemma mapPut_cases:
  assumes inv: "map_inv s mp as" and l: "lawful (compare_keys mp) (copy_key mp)"
  obtains
    (replaced) b rest nb d' w' where "b \<in> set as" "compare_keys mp (Some k) (key_at s b) = 0"
      "present s mp as (Some k)" "cells s b = Some nb"
      "copy_data mp (Some d) (free_data mp (data_at s b) (world s)) = (d', w')"
      "mapPut s (Some mp) (Some k) (Some d) =
         Some (Inr (s\<lparr>world := w', cells := (cells s)(b \<mapsto> nb\<lparr>data := Val d'\<rparr>)\<rparr>,
                    if d' = None then Some mp else Some (mp\<lparr>iterator := None\<rparr>),
                    if d' = None then MAP_OUT_OF_MEMORY else MAP_SUCCESS))"
      "dropWhile (above mp s (Some k)) as = b # rest"
  | (no_memory) s0 where "\<not> present s mp as (Some k)" "malloc_outcome s = (False, s0)"
      "mapPut s (Some mp) (Some k) (Some d) = Some (Inr (s0, Some mp, MAP_OUT_OF_MEMORY))"
  | (copy_failed) s0 k' w1 d' w2 where "\<not> present s mp as (Some k)"
      "malloc_outcome s = (True, s0)" "copy_key mp (Some k) (world s) = (k', w1)"
      "copy_data mp (Some d) w1 = (d', w2)" "k' = None \<or> d' = None"
      "mapPut s (Some mp) (Some k) (Some d) =
         Some (Inr (s0\<lparr>cells := (cells s)(brk s := None), brk := Suc (brk s),
                        world := free_key mp k' (free_data mp d' w2)\<rparr>,
                    Some mp, MAP_OUT_OF_MEMORY))"
  | (overflow) "\<not> present s mp as (Some k)" "INT_MAX \<le> msize mp"
      "mapPut s (Some mp) (Some k) (Some d) = Some (Inl SignedOverflow)"
  | (linked) s0 k' w1 d' w2 prev np q where "\<not> present s mp as (Some k)"
      "malloc_outcome s = (True, s0)" "copy_key mp (Some k) (world s) = (Some k', w1)"
      "copy_data mp (Some d) w1 = (Some d', w2)"
      "prev = last (first mp # takeWhile (above mp s (Some k)) as)"
      "cells s prev = Some np"
      "q = (case dropWhile (above mp s (Some k)) as of [] \<Rightarrow> None | b # _ \<Rightarrow> Some b)"
      "msize mp < INT_MAX"
      "mapPut s (Some mp) (Some k) (Some d) =
         Some (Inr (s0\<lparr>cells := (cells s)
                            (brk s \<mapsto> \<lparr>data = Val (Some d'), key = Val (Some k'), nxt = Val q\<rparr>,
                             prev \<mapsto> np\<lparr>nxt := Val (Some (brk s))\<rparr>),
                          brk := Suc (brk s), world := w2\<rparr>,
                    Some (mp\<lparr>msize := msize mp + 1, iterator := None\<rparr>), MAP_SUCCESS))"
proof (cases "present s mp as (Some k)")
  case True
  then obtain b rest where dw: "dropWhile (above mp s (Some k)) as = b # rest"
    and eq: "compare_keys mp (Some k) (key_at s b) = 0"
    unfolding found_iff_present[OF inv l] by (auto split: list.splits)
  have b: "b \<in> set as" using dw by (metis list.set_intros(1) set_dropWhileD)
  obtain d' w' where cp: "copy_data mp (Some d) (free_data mp (data_at s b) (world s)) = (d', w')"
    by (cases "copy_data mp (Some d) (free_data mp (data_at s b) (world s))") auto
  from mapPut_found[OF inv dw eq cp] obtain nb where nb: "cells s b = Some nb"
    and res: "mapPut s (Some mp) (Some k) (Some d) =
         Some (Inr (s\<lparr>world := w', cells := (cells s)(b \<mapsto> nb\<lparr>data := Val d'\<rparr>)\<rparr>,
                    if d' = None then Some mp else Some (mp\<lparr>iterator := None\<rparr>),
                    if d' = None then MAP_OUT_OF_MEMORY else MAP_SUCCESS))"
    by blast
  from b eq True nb cp res dw show ?thesis by (rule replaced)
next
  case False
  then have nf: "\<not> (case dropWhile (above mp s (Some k)) as of [] \<Rightarrow> False
               | b # _ \<Rightarrow> compare_keys mp (Some k) (key_at s b) = 0)"
    unfolding found_iff_present[OF inv l] .
  obtain ok s0 where mo: "malloc_outcome s = (ok, s0)" by (cases "malloc_outcome s") auto
  show ?thesis
  proof (cases ok)
    case False
    with mo have mo': "malloc_outcome s = (False, s0)" by simp
    from \<open>\<not> present s mp as (Some k)\<close> mo' mapPut_absent_no_memory[OF inv nf mo']
    show ?thesis by (rule no_memory)
  next
    case True
    with mo have mo': "malloc_outcome s = (True, s0)" by simp
    obtain k' w1 where ck: "copy_key mp (Some k) (world s) = (k', w1)"
      by (cases "copy_key mp (Some k) (world s)") auto
    obtain d' w2 where cd: "copy_data mp (Some d) w1 = (d', w2)"
      by (cases "copy_data mp (Some d) w1") auto
    show ?thesis
    proof (cases "k' = None \<or> d' = None")
      case True
      from \<open>\<not> present s mp as (Some k)\<close> mo' ck cd True
        mapPut_absent_copy_failed[OF inv nf mo' ck cd True]
      show ?thesis by (rule copy_failed)
    next
      case False
      then obtain k'' d'' where kd: "k' = Some k''" "d' = Some d''" by auto
      define prev where "prev = last (first mp # takeWhile (above mp s (Some k)) as)"
      from mapPut_absent_linked[OF inv nf mo' ck[unfolded kd] cd[unfolded kd] prev_def]
      obtain np q where r: "cells s prev = Some np"
        "q = (case dropWhile (above mp s (Some k)) as of [] \<Rightarrow> None | b # _ \<Rightarrow> Some b)"
        "mapPut s (Some mp) (Some k) (Some d) =
           (if INT_MAX \<le> msize mp then Some (Inl SignedOverflow)
            else Some (Inr (s0\<lparr>cells := (cells s)
                            (brk s \<mapsto> \<lparr>data = Val (Some d''), key = Val (Some k''), nxt = Val q\<rparr>,
                             prev \<mapsto> np\<lparr>nxt := Val (Some (brk s))\<rparr>),
                          brk := Suc (brk s), world := w2\<rparr>,
                      Some (mp\<lparr>msize := msize mp + 1, iterator := None\<rparr>), MAP_SUCCESS)))"
        by blast
      show ?thesis
      proof (cases "INT_MAX \<le> msize mp")
        case True
        with r(3) have "mapPut s (Some mp) (Some k) (Some d) = Some (Inl SignedOverflow)" by simp
        with \<open>\<not> present s mp as (Some k)\<close> True show ?thesis by (rule overflow)
      next
        case False
        then have lt: "msize mp < INT_MAX" by simp
        with r(3) have "mapPut s (Some mp) (Some k) (Some d) =
           Some (Inr (s0\<lparr>cells := (cells s)
                            (brk s \<mapsto> \<lparr>data = Val (Some d''), key = Val (Some k''), nxt = Val q\<rparr>,
                             prev \<mapsto> np\<lparr>nxt := Val (Some (brk s))\<rparr>),
                          brk := Suc (brk s), world := w2\<rparr>,
                      Some (mp\<lparr>msize := msize mp + 1, iterator := None\<rparr>), MAP_SUCCESS))"
          by simp
        with \<open>\<not> present s mp as (Some k)\<close> mo' ck[unfolded kd] cd[unfolded kd] prev_def r(1,2) lt
        show ?thesis by (rule linked)
      qed
    qed
  qed
qed

lemma untouchedI:
  "brk s \<le> brk s' \<Longrightarrow> (\<And>a. a < brk s \<Longrightarrow> a \<notin> set as \<Longrightarrow> cells s' a = cells s a) \<Longrightarrow>
   untouched s as s'"
  by (simp add: untouched_def)

lemma mapPut_null_argument:
  "mo = None \<or> ko = None \<or> dopt = None \<Longrightarrow>
   mapPut s mo ko dopt = Some (Inr (s, mo, MAP_NULL_ARGUMENT))"
  by (auto simp: mapPut_def split: option.splits)

lemma mapPut_evolves:
  assumes inv: "map_inv s mp as" and l: "lawful (compare_keys mp) (copy_key mp)"
    and r: "mapPut s (Some mp) ko dopt = Some (Inr (s', mo', res))"
  shows "\<exists>mp' as'. mo' = Some mp' \<and> evolves s mp as s' mp' as' \<and>
     (res = MAP_SUCCESS \<longrightarrow> iterator mp' = None)"
proof (cases "ko = None \<or> dopt = None")
  case True
  then have "mapPut s (Some mp) ko dopt = Some (Inr (s, Some mp, MAP_NULL_ARGUMENT))"
    by (intro mapPut_null_argument) auto
  with r have "s' = s" "mo' = Some mp" "res = MAP_NULL_ARGUMENT" by auto
  moreover have "evolves s mp as s mp as"
    using inv by (rule evolves_unchanged) (simp_all add: same_functions_refl)
  ultimately show ?thesis by auto
next
  case False
  then obtain k d where kd: "ko = Some k" "dopt = Some d" by auto
  from inv l show ?thesis
  proof (cases rule: mapPut_cases[where k = k and d = d])
    case (replaced b rest nb d' w')
    let ?s = "s\<lparr>world := w', cells := (cells s)(b \<mapsto> nb\<lparr>data := Val d'\<rparr>)\<rparr>"
    let ?mp = "if d' = None then mp else mp\<lparr>iterator := None\<rparr>"
    from r replaced(6) have e: "s' = ?s" "mo' = Some ?mp"
      "res = (if d' = None then MAP_OUT_OF_MEMORY else MAP_SUCCESS)"
      unfolding kd by (auto split: if_splits)
    have "map_inv ?s ?mp as"
      using inv replaced(1,4) by (rule map_inv_replace) auto
    moreover have "untouched s (first mp # as) ?s"
      using replaced(1) by (intro untouchedI) auto
    ultimately have "evolves s mp as ?s ?mp as"
      by (simp add: evolves_def same_functions_def)
    with e show ?thesis by auto
  next
    case (no_memory s0)
    from r no_memory(3) have e: "s' = s0" "mo' = Some mp" "res = MAP_OUT_OF_MEMORY"
      unfolding kd by auto
    note f = malloc_outcome_fields[OF no_memory(2)]
    have "evolves s mp as s0 mp as"
      using inv by (rule evolves_unchanged) (simp_all add: f same_functions_refl)
    with e show ?thesis by auto
  next
    case (copy_failed s0 k' w1 d' w2)
    let ?s = "s0\<lparr>cells := (cells s)(brk s := None), brk := Suc (brk s),
                 world := free_key mp k' (free_data mp d' w2)\<rparr>"
    from r copy_failed(6) have e: "s' = ?s" "mo' = Some mp" "res = MAP_OUT_OF_MEMORY"
      unfolding kd by auto
    note f = malloc_outcome_fields[OF copy_failed(2)]
    have below: "\<And>a. a \<in> set (first mp # as) \<Longrightarrow> a < brk s"
      using inv by (rule map_inv_below)
    have "map_inv ?s mp as"
      using inv
    proof (rule map_inv_frame)
      fix a assume "a \<in> set (first mp # as)"
      then have "a \<noteq> brk s" using below by blast
      then show "cells ?s a = cells s a" by simp
    qed (simp_all add: f)
    moreover have "untouched s (first mp # as) ?s"
      by (intro untouchedI) (auto simp: f)
    ultimately have "evolves s mp as ?s mp as"
      by (simp add: evolves_def same_functions_refl)
    with e show ?thesis by auto
  next
    case overflow
    with r show ?thesis unfolding kd by simp
  next
    case (linked s0 k' w1 d' w2 prev np q)
    let ?s = "s0\<lparr>cells := (cells s)
                   (brk s \<mapsto> \<lparr>data = Val (Some d'), key = Val (Some k'), nxt = Val q\<rparr>,
                    prev \<mapsto> np\<lparr>nxt := Val (Some (brk s))\<rparr>),
                 brk := Suc (brk s), world := w2\<rparr>"
    let ?mp = "mp\<lparr>msize := msize mp + 1, iterator := None\<rparr>"
    let ?as = "takeWhile (above mp s (Some k)) as @ brk s # dropWhile (above mp s (Some k)) as"
    from r linked(9) have e: "s' = ?s" "mo' = Some ?mp" "res = MAP_SUCCESS"
      unfolding kd by auto
    note f = malloc_outcome_fields[OF linked(2)]
    have nf: "\<not> (case dropWhile (above mp s (Some k)) as of [] \<Rightarrow> False
               | b # _ \<Rightarrow> compare_keys mp (Some k) (key_at s b) = 0)"
      using linked(1) unfolding found_iff_present[OF inv l] .
    have i: "map_inv ?s ?mp ?as"
      using inv l nf linked(3,5,6,7)
      by (rule map_inv_insert) (simp_all add: f)
    have "prev \<in> set (first mp # as)" unfolding linked(5) by (rule prev_in)
    then have u: "untouched s (first mp # as) ?s"
      by (intro untouchedI) (auto simp: f)
    have "set ?as = insert (brk s) (set as)"
    proof -
      have "set (takeWhile (above mp s (Some k)) as) \<union> set (dropWhile (above mp s (Some k)) as)
          = set as"
        by (metis set_append takeWhile_dropWhile_id)
      then show ?thesis by auto
    qed
    then have "\<forall>a\<in>set ?as. a \<in> set as \<or> brk s \<le> a" by auto
    with i u have "evolves s mp as ?s ?mp ?as"
      by (simp add: evolves_def same_functions_def)
    with e show ?thesis by auto
  qed
qed

lemma mapGet_inv:
  assumes inv: "map_inv s mp as"
  shows "mapGet s (Some mp) (Some k) =
     Some (Inr (case dropWhile (above mp s (Some k)) as of [] \<Rightarrow> None
                | b # _ \<Rightarrow> if compare_keys mp (Some k) (key_at s b) = 0 then data_at s b else None))"
proof (cases "dropWhile (above mp s (Some k)) as")
  case Nil
  show ?thesis by (simp add: mapGet_def findPrevNode_inv[OF inv] andThenP_def Nil)
next
  case (Cons b rest)
  define prev where "prev = last (first mp # takeWhile (above mp s (Some k)) as)"
  have "b \<in> set as" using Cons by (metis list.set_intros(1) set_dropWhileD)
  then have fb: "filled s b" using inv by (rule map_inv_filled[rotated])
  have "next_at s prev = Some (Some b)"
    using prev_next[OF inv, of "above mp s (Some k)"] Cons by (simp add: prev_def)
  then have gn: "get_next s (Some prev) = Inr (Some b)" by (rule get_next_at)
  have fp: "findPrevNode s mp (Some k) =
      Some (Inr (Some prev, compare_keys mp (Some k) (key_at s b) = 0))"
    unfolding prev_def by (simp add: findPrevNode_inv[OF inv] Cons)
  show ?thesis
    using gn filled_get_data[OF fb]
    by (simp add: mapGet_def fp andThenP_def andThen_def Cons)
qed


section \<open>The sample client\<close>

lemma lawful_ints: "lawful compareInts copyInt"
  by (auto simp: lawful_def compareInts_def copyInt_def sgn_if split: list.splits if_splits)

lemmas run_defs = replies_def createInts_def start_def map_of_handle_def put_back_def
  new_handle_def mapCreate_def malloc_outcome_def malloc_node_def initializeMap_def
  mapPut_def findPrevNode_def findPrevNode_loop.simps createNewNode_def insertNewNode_def
  mapGet_def mapContains_def mapRemove_def mapGetFirst_def mapGetNext_def mapGetSize_def
  exec_defs copyInt_def freeInt_def compareInts_def INT_MAX_def INT_MIN_def

lemma demo_run:
  "run (start [] []) [createInts, Put (Some 0) (Some 1) (Some 10), Put (Some 0) (Some 3) (Some 30)]
   = Some (Inr (\<lparr>mem = demo_mem, maps = [Some demo_map]\<rparr>,
                [Handle (Some 0), Code MAP_SUCCESS, Code MAP_SUCCESS]))"
  by (simp add: run_defs demo_mem_def demo_map_def fun_eq_iff)

lemma demo_inv: "map_inv demo_mem demo_map [1, 2]"
  by (simp add: map_inv_def demo_mem_def demo_map_def next_at_def filled_def before_def
      key_at_def compareInts_def)

lemma demo_lawful: "lawful (compare_keys demo_map) (copy_key demo_map)"
  by (simp add: demo_map_def lawful_ints)

section \<open>Claims on mapPut\<close>

lemma above_replace:
  assumes "cells s b = Some nb" "cells s' = (cells s)(b \<mapsto> nb\<lparr>data := Val d'\<rparr>)"
    "compare_keys mp' = compare_keys mp"
  shows "above mp' s' e = above mp s e"
  using assms by (auto simp: above_def key_at_def fun_eq_iff)

text \<open>
  Claim C5. On a well-formed map, with non-\<^verbatim>\<open>NULL\<close> key and data, a \<^verbatim>\<open>mapPut\<close> that returns
  \<^verbatim>\<open>MAP_SUCCESS\<close> does one of two things. If a node's key compares equal to the key, the
  size is unchanged, that node now holds the fresh copy of the data (the result of
  \<^verbatim>\<open>copy_data\<close>, called after \<^verbatim>\<open>free_data\<close> on the old data) and \<^verbatim>\<open>mapGet\<close> returns it. If no
  node's key compares equal, the size grows by exactly 1.
\<close>

theorem mapPut_size:
  assumes inv: "map_inv s mp as" and l: "lawful (compare_keys mp) (copy_key mp)"
    and r: "mapPut s (Some mp) (Some k) (Some d) = Some (Inr (s', mo', MAP_SUCCESS))"
  shows "if present s mp as (Some k)
     then mapGetSize mo' = mapGetSize (Some mp) \<and>
          (\<exists>b\<in>set as. compare_keys mp (Some k) (key_at s b) = 0 \<and>
             (data_at s' b, world s') =
               copy_data mp (Some d) (free_data mp (data_at s b) (world s)) \<and>
             data_at s' b \<noteq> None \<and> mapGet s' mo' (Some k) = Some (Inr (data_at s' b)))
     else mapGetSize mo' = mapGetSize (Some mp) + 1"
  using inv l
proof (cases rule: mapPut_cases[where k = k and d = d])
  case (replaced b rest nb d' w')
  let ?s = "s\<lparr>world := w', cells := (cells s)(b \<mapsto> nb\<lparr>data := Val d'\<rparr>)\<rparr>"
  let ?mp = "mp\<lparr>iterator := None\<rparr>"
  from r replaced(6) have e: "d' \<noteq> None" "s' = ?s" "mo' = Some ?mp"
    by (auto split: if_splits)
  have inv': "map_inv ?s ?mp as"
    using inv replaced(1,4) by (rule map_inv_replace) auto
  have ab: "above ?mp ?s (Some k) = above mp s (Some k)"
    using replaced(4) by (rule above_replace) auto
  have da: "data_at ?s b = d'" by (simp add: data_at_def)
  have ka: "key_at ?s b = key_at s b" using replaced(4) by (simp add: key_at_def)
  have "mapGet ?s (Some ?mp) (Some k) = Some (Inr d')"
    unfolding mapGet_inv[OF inv'] ab replaced(7) using replaced(2) by (simp add: ka da)
  with replaced e da show ?thesis by (auto simp: mapGetSize_def)
next
  case (no_memory s0)
  with r show ?thesis by simp
next
  case (copy_failed s0 k' w1 d' w2)
  with r show ?thesis by simp
next
  case overflow
  with r show ?thesis by simp
next
  case (linked s0 k' w1 d' w2 prev np q)
  with r show ?thesis by (auto simp: mapGetSize_def)
qed

theorem mapPut_size_witness:
  "(\<exists>s' mo'. mapPut demo_mem (Some demo_map) (Some 3) (Some 33) = Some (Inr (s', mo', MAP_SUCCESS)) \<and>
      mapGetSize mo' = 2 \<and> data_at s' 2 = Some 33 \<and>
      mapGet s' mo' (Some 3) = Some (Inr (Some 33))) \<and>
   (\<exists>s' mo'. mapPut demo_mem (Some demo_map) (Some 2) (Some 20) = Some (Inr (s', mo', MAP_SUCCESS)) \<and>
      mapGetSize mo' = 3)"
proof -
  obtain s1 mo1 where p1:
    "mapPut demo_mem (Some demo_map) (Some 3) (Some 33) = Some (Inr (s1, mo1, MAP_SUCCESS))"
    by (simp add: run_defs demo_mem_def demo_map_def)
  obtain s2 mo2 where p2:
    "mapPut demo_mem (Some demo_map) (Some 2) (Some 20) = Some (Inr (s2, mo2, MAP_SUCCESS))"
    by (simp add: run_defs demo_mem_def demo_map_def)
  have pr: "present demo_mem demo_map [1, 2] (Some 3)" "\<not> present demo_mem demo_map [1, 2] (Some 2)"
    by (simp_all add: present_def demo_mem_def demo_map_def key_at_def compareInts_def)
  have k: "key_at demo_mem 1 = Some 1" "key_at demo_mem 2 = Some 3"
    "data_at demo_mem 2 = Some 30"
    by (simp_all add: demo_mem_def key_at_def data_at_def)
  have c: "copy_data demo_map (Some 33) (free_data demo_map (Some 30) (world demo_mem)) = (Some 33, [])"
    by (simp add: demo_map_def demo_mem_def copyInt_def freeInt_def)
  from mapPut_size[OF demo_inv demo_lawful p1] pr(1) k c
  have "mapGetSize mo1 = 2 \<and> data_at s1 2 = Some 33 \<and>
      mapGet s1 mo1 (Some 3) = Some (Inr (Some 33))"
    by (auto simp: mapGetSize_def demo_map_def compareInts_def)
  moreover from mapPut_size[OF demo_inv demo_lawful p2] pr(2)
  have "mapGetSize mo2 = 3" by (simp add: mapGetSize_def demo_map_def)
  ultimately show ?thesis using p1 p2 by blast
qed

text \<open>
  Claim C10. On a well-formed map with a node \<open>b\<close> whose key compares equal to the key,
  \<^verbatim>\<open>mapPut\<close> returns, and the store afterwards differs from the store before only in the
  \<^verbatim>\<open>data\<close> field of \<open>b\<close>: the key and the \<^verbatim>\<open>next\<close> field of \<open>b\<close> and every other node
  are as before, nothing is allocated, the chain of the map is the same list of nodes,
  and the caller's state has gone through \<^verbatim>\<open>free_data\<close> and \<^verbatim>\<open>copy_data\<close> only (neither
  \<^verbatim>\<open>copy_key\<close> nor \<^verbatim>\<open>free_key\<close> is called).
\<close>

theorem mapPut_replaces_only_data:
  assumes inv: "map_inv s mp as" and l: "lawful (compare_keys mp) (copy_key mp)"
    and p: "present s mp as (Some k)"
  shows "\<exists>b nb s' mp' res. b \<in> set as \<and> compare_keys mp (Some k) (key_at s b) = 0 \<and>
     cells s b = Some nb \<and>
     mapPut s (Some mp) (Some k) (Some d) = Some (Inr (s', Some mp', res)) \<and>
     cells s' = (cells s)(b \<mapsto> nb\<lparr>data :=
        Val (fst (copy_data mp (Some d) (free_data mp (data_at s b) (world s))))\<rparr>) \<and>
     world s' = snd (copy_data mp (Some d) (free_data mp (data_at s b) (world s))) \<and>
     brk s' = brk s \<and> mallocs s' = mallocs s \<and>
     key_at s' b = key_at s b \<and> next_at s' b = next_at s b \<and>
     (\<forall>a. a \<noteq> b \<longrightarrow> cells s' a = cells s a) \<and>
     map_inv s' mp' as \<and> map (key_at s') as = map (key_at s) as"
  using inv l
proof (cases rule: mapPut_cases[where k = k and d = d])
  case (replaced b rest nb d' w')
  let ?s = "s\<lparr>world := w', cells := (cells s)(b \<mapsto> nb\<lparr>data := Val d'\<rparr>)\<rparr>"
  let ?mp = "if d' = None then mp else mp\<lparr>iterator := None\<rparr>"
  let ?res = "if d' = None then MAP_OUT_OF_MEMORY else MAP_SUCCESS"
  have put: "mapPut s (Some mp) (Some k) (Some d) = Some (Inr (?s, Some ?mp, ?res))"
    using replaced(6) by simp
  have inv': "map_inv ?s ?mp as"
    using inv replaced(1,4) by (rule map_inv_replace) auto
  have keys: "key_at ?s a = key_at s a" for a using replaced(4) by (simp add: key_at_def)
  have nx: "next_at ?s b = next_at s b" using replaced(4) by (simp add: next_at_def)
  show ?thesis
    apply (rule exI[of _ b], rule exI[of _ nb], rule exI[of _ ?s], rule exI[of _ ?mp],
           rule exI[of _ ?res])
    using replaced(1,2,4,5) put inv' keys nx by simp
qed (use p in simp_all)

theorem mapPut_replaces_only_data_witness:
  "\<exists>s' mp' res. mapPut demo_mem (Some demo_map) (Some 3) (Some 33) = Some (Inr (s', Some mp', res)) \<and>
     cells s' = (cells demo_mem)
       (2 \<mapsto> \<lparr>data = Val (Some 33), key = Val (Some 3), nxt = Val None\<rparr>) \<and>
     world s' = [] \<and> brk s' = 3 \<and> map_inv s' mp' [1, 2]"
proof -
  have pr: "present demo_mem demo_map [1, 2] (Some 3)"
    by (simp add: present_def demo_mem_def demo_map_def key_at_def compareInts_def)
  have k: "compare_keys demo_map (Some 3) (key_at demo_mem 1) \<noteq> 0"
    by (simp add: demo_mem_def demo_map_def key_at_def compareInts_def)
  have c: "cells demo_mem 2 = Some \<lparr>data = Val (Some 30), key = Val (Some 3), nxt = Val None\<rparr>"
    "data_at demo_mem 2 = Some 30" "brk demo_mem = 3"
    by (simp_all add: demo_mem_def data_at_def)
  have cp: "copy_data demo_map (Some 33) (free_data demo_map (Some 30) (world demo_mem))
      = (Some 33, [])"
    by (simp add: demo_map_def demo_mem_def copyInt_def freeInt_def)
  from mapPut_replaces_only_data[OF demo_inv demo_lawful pr, of 33] k c cp
  show ?thesis by auto
qed

text \<open>
  Claim C2, at a failing input. The client puts the key 1 with the data 10, then puts
  the key 1 again while its next allocation fails. The second \<^verbatim>\<open>mapPut\<close> returns
  \<^verbatim>\<open>MAP_OUT_OF_MEMORY\<close>, and the node of the key 1 is still in the map, but \<^verbatim>\<open>mapGet\<close> then
  returns \<^verbatim>\<open>NULL\<close>: the old data was freed before the copy was made, and the node holds
  the \<^verbatim>\<open>NULL\<close> that \<^verbatim>\<open>copy_data\<close> returned.
\<close>

theorem mapPut_failed_copy_loses_old_data:
  "replies (start [] [True, True, False])
     [createInts, Put (Some 0) (Some 1) (Some 10), Get (Some 0) (Some 1),
      Put (Some 0) (Some 1) (Some 20), Get (Some 0) (Some 1), Contains (Some 0) (Some 1),
      GetSize (Some 0)]
   = Some (Inr [Handle (Some 0), Code MAP_SUCCESS, DataPtr (Some 10),
                Code MAP_OUT_OF_MEMORY, DataPtr None, Truth True, Count 1])"
  by (simp add: run_defs)


section \<open>mapRemove\<close>

lemma mapRemove_null_argument:
  "mo = None \<or> ko = None \<Longrightarrow> mapRemove s mo ko = Some (Inr (s, mo, MAP_NULL_ARGUMENT))"
  by (auto simp: mapRemove_def split: option.splits)

lemma mapRemove_absent:
  assumes inv: "map_inv s mp as" and l: "lawful (compare_keys mp) (copy_key mp)"
    and np: "\<not> present s mp as (Some k)"
  shows "mapRemove s (Some mp) (Some k) = Some (Inr (s, Some mp, MAP_ITEM_DOES_NOT_EXIST))"
  using np unfolding found_iff_present[OF inv l]
  by (simp add: mapRemove_def findPrevNode_inv[OF inv] andThenP_def)

lemma mapRemove_found:
  assumes inv: "map_inv s mp as"
    and dw: "dropWhile (above mp s (Some k)) as = b # rest"
    and eq: "compare_keys mp (Some k) (key_at s b) = 0"
    and prev: "prev = last (first mp # takeWhile (above mp s (Some k)) as)"
  shows "\<exists>np nb. cells s prev = Some np \<and> cells s b = Some nb \<and> prev \<noteq> b \<and>
     mapRemove s (Some mp) (Some k) =
       Some (Inr (s\<lparr>world := free_key mp (key_at s b) (free_data mp (data_at s b) (world s)),
                     cells := (cells s)(prev \<mapsto> np\<lparr>nxt := nxt nb\<rparr>, b := None)\<rparr>,
                  Some (mp\<lparr>msize := msize mp - 1, iterator := None\<rparr>), MAP_SUCCESS))"
proof -
  let ?pre = "takeWhile (above mp s (Some k)) as"
  have as: "(first mp # ?pre) @ b # rest = first mp # as"
    using dw by (metis append_Cons takeWhile_dropWhile_id)
  have d: "distinct ((first mp # ?pre) @ b # rest)"
    unfolding as using inv by (rule map_inv_distinct)
  have "prev \<in> set (first mp # ?pre)" unfolding prev by simp
  with d have ne: "prev \<noteq> b" "b \<noteq> prev" by auto
  have bin: "b \<in> set as" using dw by (metis list.set_intros(1) set_dropWhileD)
  then have "filled s b" using inv by (rule map_inv_filled[rotated])
  then obtain nb kb db where nb: "cells s b = Some nb" "key nb = Val (Some kb)" "data nb = Val db"
    by (auto dest: filledD)
  have "next_at s prev = Some (Some b)"
    using prev_next[OF inv, of "above mp s (Some k)"] dw by (simp add: prev)
  then obtain np where np: "cells s prev = Some np" "nxt np = Val (Some b)"
    by (auto dest: next_atD)
  have "chain s (Some b) (b # rest)"
    using map_inv_chain[OF inv] chain_suffix[of s "Some (first mp)" "first mp # ?pre" b rest]
    unfolding as by simp
  then obtain qb where qb: "nxt nb = Val qb"
    using nb by (auto simp: next_at_def split: option.splits field.splits)
  have fp: "findPrevNode s mp (Some k) = Some (Inr (Some prev, True))"
    using findPrevNode_inv[OF inv, of "Some k"] dw eq by (simp add: prev)
  have "0 \<le> msize mp" using map_inv_size[OF inv] by simp
  then have sz: "\<not> msize mp \<le> INT_MIN" by (simp add: INT_MIN_def)
  have ka: "key_at s b = Some kb" "data_at s b = db" using nb by (simp_all add: key_at_def data_at_def)
  have "mapRemove s (Some mp) (Some k) =
       Some (Inr (s\<lparr>world := free_key mp (key_at s b) (free_data mp (data_at s b) (world s)),
                     cells := (cells s)(prev \<mapsto> np\<lparr>nxt := nxt nb\<rparr>, b := None)\<rparr>,
                  Some (mp\<lparr>msize := msize mp - 1, iterator := None\<rparr>), MAP_SUCCESS))"
    using nb np ne qb sz unfolding ka
    by (simp add: mapRemove_def fp exec_defs)
  with nb np ne show ?thesis by blast
qed

lemma map_inv_remove:
  assumes inv: "map_inv s mp as" and l: "lawful (compare_keys mp) (copy_key mp)"
    and dw: "dropWhile (above mp s (Some k)) as = b # rest"
    and eq: "compare_keys mp (Some k) (key_at s b) = 0"
    and prev: "prev = last (first mp # takeWhile (above mp s (Some k)) as)"
    and np: "cells s prev = Some np" and nb: "cells s b = Some nb" and ne: "prev \<noteq> b"
    and cells: "cells s' = (cells s)(prev \<mapsto> np\<lparr>nxt := nxt nb\<rparr>, b := None)"
    and bk: "brk s' = brk s"
    and mp: "first mp' = first mp" "msize mp' = msize mp - 1" "compare_keys mp' = compare_keys mp"
  shows "map_inv s' mp' (takeWhile (above mp s (Some k)) as @ rest) \<and>
     \<not> present s' mp' (takeWhile (above mp s (Some k)) as @ rest) (Some k)"
proof -
  let ?pre = "takeWhile (above mp s (Some k)) as"
  have as: "?pre @ b # rest = as" using dw by (metis takeWhile_dropWhile_id)
  have d: "distinct (first mp # ?pre @ b # rest)"
    unfolding as using inv by (rule map_inv_distinct)
  have sub: "set (?pre @ rest) \<subseteq> set as" using as by (metis set_append set_subset_Cons Un_mono subset_refl) 
  have nb_notin: "b \<notin> set (first mp # ?pre @ rest)" using d by auto
  have old: "\<And>a. a \<noteq> prev \<Longrightarrow> a \<noteq> b \<Longrightarrow> cells s' a = cells s a"
    by (simp add: cells)
  have key_old: "key_at s' a = key_at s a" if "a \<in> set (first mp # ?pre @ rest)" for a
  proof (cases "a = prev")
    case True
    then show ?thesis using np ne by (simp add: key_at_def cells)
  next
    case False
    moreover have "a \<noteq> b" using that nb_notin by auto
    ultimately show ?thesis using old by (intro key_at_cong) simp
  qed
  have filled_old: "filled s' a" if "a \<in> set (?pre @ rest)" for a
  proof -
    have fa: "filled s a" using that sub map_inv_filled[OF inv] by blast
    have "a \<noteq> b" using that nb_notin by auto
    show ?thesis
    proof (cases "a = prev")
      case True
      then show ?thesis using np ne fa
        by (auto simp: filled_def cells split: field.splits option.splits)
    next
      case False
      then have "cells s' a = cells s a" using old \<open>a \<noteq> b\<close> by simp
      then show ?thesis using fa filled_cong by blast
    qed
  qed
  have ch: "chain s' (Some (first mp)) ((first mp # ?pre) @ rest)"
  proof (rule chain_remove)
    show "chain s (Some (first mp)) ((first mp # ?pre) @ b # rest)"
      using map_inv_chain[OF inv] as by simp
    show "first mp # ?pre \<noteq> []" by simp
    show "next_at s' (last (first mp # ?pre)) = next_at s b"
      unfolding prev[symmetric] using ne nb by (simp add: next_at_def cells)
    fix a assume "a \<in> set ((first mp # ?pre) @ rest)" "a \<noteq> last (first mp # ?pre)"
    then have "a \<noteq> prev" "a \<noteq> b" using prev nb_notin by auto
    then show "next_at s' a = next_at s a" using old by (intro next_at_cong) simp
  qed
  have "sorted_wrt (before mp s) (?pre @ b # rest)" using map_inv_sorted[OF inv] as by simp
  then have so: "sorted_wrt (before mp s) (?pre @ rest)" and br: "\<forall>a\<in>set rest. before mp s b a"
    by (auto simp: sorted_wrt_append)
  have sorted: "sorted_wrt (before mp' s') (?pre @ rest)"
    using so by (rule sorted_wrt_key_cong) (use key_old mp(3) in auto)
  have "length as = Suc (length (?pre @ rest))" using as
    by (metis length_append length_Cons add_Suc_right)
  then have len: "msize mp' = int (length (?pre @ rest))"
    using map_inv_size[OF inv] mp(2) by simp
  have bl: "list_all (\<lambda>a. a < brk s') (first mp # ?pre @ rest)"
    unfolding list_all_iff bk using map_inv_below[OF inv] sub by auto
  have fl: "list_all (filled s') (?pre @ rest)"
    unfolding list_all_iff using filled_old by blast
  have i: "map_inv s' mp' (?pre @ rest)"
    unfolding map_inv_def using ch sorted len fl bl by (simp add: mp)
  have bin: "b \<in> set as" using dw by (metis list.set_intros(1) set_dropWhileD)
  then obtain kb where kb: "key_at s b = Some kb" using map_inv_key[OF inv] by blast
  have "compare_keys mp' (Some k) (key_at s' a) \<noteq> 0" if a: "a \<in> set (?pre @ rest)" for a
  proof -
    have ain: "a \<in> set as" using a sub by blast
    then obtain ka where ka: "key_at s a = Some ka" using map_inv_key[OF inv] by blast
    have k': "key_at s' a = Some ka" using key_old[of a] a ka by simp
    from a consider "a \<in> set ?pre" | "a \<in> set rest" by auto
    then have "compare_keys mp (Some k) (Some ka) \<noteq> 0"
    proof cases
      case 1
      then show ?thesis using takeWhile_above[OF 1] ka by simp
    next
      case 2
      with br have "before mp s b a" by blast
      then have "compare_keys mp (Some kb) (Some ka) < 0" by (simp add: before_def kb ka)
      moreover have "compare_keys mp (Some k) (Some kb) \<le> 0" using eq kb by simp
      ultimately have "compare_keys mp (Some k) (Some ka) < 0"
        by (intro lawful_le_less[OF l, of k kb ka])
      then show ?thesis by simp
    qed
    then show ?thesis by (simp add: k' mp)
  qed
  then have "\<not> present s' mp' (?pre @ rest) (Some k)"
    unfolding present_def list_ex_iff by blast
  with i show ?thesis by blast
qed

lemma mapRemove_present:
  assumes inv: "map_inv s mp as" and l: "lawful (compare_keys mp) (copy_key mp)"
    and p: "present s mp as (Some k)"
  shows "\<exists>s' mp' as'. mapRemove s (Some mp) (Some k) = Some (Inr (s', Some mp', MAP_SUCCESS)) \<and>
     evolves s mp as s' mp' as' \<and> msize mp' = msize mp - 1 \<and> iterator mp' = None \<and>
     \<not> present s' mp' as' (Some k)"
proof -
  from p obtain b rest where dw: "dropWhile (above mp s (Some k)) as = b # rest"
    and eq: "compare_keys mp (Some k) (key_at s b) = 0"
    unfolding found_iff_present[OF inv l] by (auto split: list.splits)
  define prev where "prev = last (first mp # takeWhile (above mp s (Some k)) as)"
  from mapRemove_found[OF inv dw eq prev_def] obtain np nb where
    c: "cells s prev = Some np" "cells s b = Some nb" "prev \<noteq> b"
    and r: "mapRemove s (Some mp) (Some k) =
       Some (Inr (s\<lparr>world := free_key mp (key_at s b) (free_data mp (data_at s b) (world s)),
                     cells := (cells s)(prev \<mapsto> np\<lparr>nxt := nxt nb\<rparr>, b := None)\<rparr>,
                  Some (mp\<lparr>msize := msize mp - 1, iterator := None\<rparr>), MAP_SUCCESS))"
    by blast
  let ?s = "s\<lparr>world := free_key mp (key_at s b) (free_data mp (data_at s b) (world s)),
              cells := (cells s)(prev \<mapsto> np\<lparr>nxt := nxt nb\<rparr>, b := None)\<rparr>"
  let ?mp = "mp\<lparr>msize := msize mp - 1, iterator := None\<rparr>"
  let ?as = "takeWhile (above mp s (Some k)) as @ rest"
  have i: "map_inv ?s ?mp ?as \<and> \<not> present ?s ?mp ?as (Some k)"
    using inv l dw eq prev_def c by (rule map_inv_remove) simp_all
  have "prev \<in> set (first mp # as)" unfolding prev_def by (rule prev_in)
  moreover have bin: "b \<in> set as" using dw by (metis list.set_intros(1) set_dropWhileD)
  ultimately have u: "untouched s (first mp # as) ?s"
    by (intro untouchedI) auto
  have "set ?as \<subseteq> set as"
    using dw by (metis set_append set_subset_Cons Un_mono subset_refl takeWhile_dropWhile_id)
  then have "\<forall>a\<in>set ?as. a \<in> set as \<or> brk s \<le> a" by blast
  with i u have "evolves s mp as ?s ?mp ?as"
    by (simp add: evolves_def same_functions_def)
  with r i show ?thesis by (intro exI[of _ ?s] exI[of _ ?mp] exI[of _ ?as]) simp
qed

lemma mapRemove_evolves:
  assumes inv: "map_inv s mp as" and l: "lawful (compare_keys mp) (copy_key mp)"
    and r: "mapRemove s (Some mp) ko = Some (Inr (s', mo', res))"
  shows "\<exists>mp' as'. mo' = Some mp' \<and> evolves s mp as s' mp' as' \<and>
     (res = MAP_SUCCESS \<longrightarrow> iterator mp' = None)"
proof -
  have same: "evolves s mp as s mp as"
    using inv by (rule evolves_unchanged) (simp_all add: same_functions_refl)
  show ?thesis
  proof (cases ko)
    case None
    then have "mapRemove s (Some mp) ko = Some (Inr (s, Some mp, MAP_NULL_ARGUMENT))"
      by (intro mapRemove_null_argument) simp
    with r same show ?thesis by auto
  next
    case (Some k)
    show ?thesis
    proof (cases "present s mp as (Some k)")
      case True
      from mapRemove_present[OF inv l True] r show ?thesis unfolding Some by auto
    next
      case False
      from mapRemove_absent[OF inv l False] r same show ?thesis unfolding Some by auto
    qed
  qed
qed

text \<open>
  Claim C6. \<^verbatim>\<open>mapRemove\<close> returns \<^verbatim>\<open>MAP_NULL_ARGUMENT\<close> when the map or the key is \<^verbatim>\<open>NULL\<close>. On a
  well-formed map, a key that compares equal to no node gives \<^verbatim>\<open>MAP_ITEM_DOES_NOT_EXIST\<close>
  and leaves the store and the map struct (so the size and the chain) as they were; a
  key that compares equal to a node gives \<^verbatim>\<open>MAP_SUCCESS\<close>, the size is one less, and
  \<^verbatim>\<open>mapContains\<close> on that key then returns false.
\<close>

theorem mapRemove_results:
  "(mo = None \<or> ko = None \<longrightarrow> mapRemove s mo ko = Some (Inr (s, mo, MAP_NULL_ARGUMENT))) \<and>
   (map_inv s mp as \<and> lawful (compare_keys mp) (copy_key mp) \<longrightarrow>
      (\<not> present s mp as (Some k) \<longrightarrow>
         mapRemove s (Some mp) (Some k) = Some (Inr (s, Some mp, MAP_ITEM_DOES_NOT_EXIST))) \<and>
      (present s mp as (Some k) \<longrightarrow>
         (\<exists>s' mp'. mapRemove s (Some mp) (Some k) = Some (Inr (s', Some mp', MAP_SUCCESS)) \<and>
            mapGetSize (Some mp') = mapGetSize (Some mp) - 1 \<and>
            mapContains s' (Some mp') (Some k) = Some (Inr False))))"
proof (intro conjI impI)
  assume "mo = None \<or> ko = None"
  then show "mapRemove s mo ko = Some (Inr (s, mo, MAP_NULL_ARGUMENT))"
    by (rule mapRemove_null_argument)
next
  assume a: "map_inv s mp as \<and> lawful (compare_keys mp) (copy_key mp)"
    and "\<not> present s mp as (Some k)"
  then show "mapRemove s (Some mp) (Some k) = Some (Inr (s, Some mp, MAP_ITEM_DOES_NOT_EXIST))"
    by (intro mapRemove_absent) auto
next
  assume a: "map_inv s mp as \<and> lawful (compare_keys mp) (copy_key mp)"
    and p: "present s mp as (Some k)"
  then obtain s' mp' as' where
    r: "mapRemove s (Some mp) (Some k) = Some (Inr (s', Some mp', MAP_SUCCESS))"
    and e: "evolves s mp as s' mp' as'" and sz: "msize mp' = msize mp - 1"
    and np: "\<not> present s' mp' as' (Some k)"
    using mapRemove_present[of s mp as k] by blast
  from e have inv': "map_inv s' mp' as'" and sf: "same_functions mp mp'"
    by (simp_all add: evolves_def)
  from a sf have l': "lawful (compare_keys mp') (copy_key mp')" by (simp add: same_functions_def)
  have "mapContains s' (Some mp') (Some k) = Some (Inr False)"
    using mapContains_inv[OF inv' l', of k] np by simp
  with r sz show "\<exists>s' mp'. mapRemove s (Some mp) (Some k) = Some (Inr (s', Some mp', MAP_SUCCESS)) \<and>
            mapGetSize (Some mp') = mapGetSize (Some mp) - 1 \<and>
            mapContains s' (Some mp') (Some k) = Some (Inr False)"
    by (auto simp: mapGetSize_def)
qed

theorem mapRemove_results_witness:
  "mapRemove demo_mem None (Some 3) = Some (Inr (demo_mem, None, MAP_NULL_ARGUMENT)) \<and>
   mapRemove demo_mem (Some demo_map) None = Some (Inr (demo_mem, Some demo_map, MAP_NULL_ARGUMENT)) \<and>
   mapRemove demo_mem (Some demo_map) (Some 5)
     = Some (Inr (demo_mem, Some demo_map, MAP_ITEM_DOES_NOT_EXIST)) \<and>
   (\<exists>s' mp'. mapRemove demo_mem (Some demo_map) (Some 3) = Some (Inr (s', Some mp', MAP_SUCCESS)) \<and>
      mapGetSize (Some mp') = 1 \<and> mapContains s' (Some mp') (Some 3) = Some (Inr False))"
proof -
  have pr: "present demo_mem demo_map [1, 2] (Some 3)" "\<not> present demo_mem demo_map [1, 2] (Some 5)"
    by (simp_all add: present_def demo_mem_def demo_map_def key_at_def compareInts_def)
  have sz: "mapGetSize (Some demo_map) = 2" by (simp add: mapGetSize_def demo_map_def)
  from mapRemove_results[of None "Some 3" demo_mem demo_map "[1, 2]" 3]
    mapRemove_results[of "Some demo_map" None demo_mem demo_map "[1, 2]" 5]
    mapRemove_results[of "Some demo_map" None demo_mem demo_map "[1, 2]" 3]
    demo_inv demo_lawful pr sz
  show ?thesis by simp
qed


section \<open>Enumeration\<close>

lemma mapGetFirst_inv:
  assumes inv: "map_inv s mp as"
  shows "mapGetFirst s (Some mp) =
     Inr (case as of [] \<Rightarrow> (Some mp, None)
          | a # _ \<Rightarrow> (Some (mp\<lparr>iterator := Some a\<rparr>), key_at s a))"
proof -
  from map_inv_chain[OF inv]
  have n: "next_at s (first mp) = Some (case as of [] \<Rightarrow> None | a # _ \<Rightarrow> Some a)"
    by (cases as) (auto split: option.splits)
  show ?thesis
  proof (cases as)
    case Nil
    with n show ?thesis by (simp add: mapGetFirst_def get_next_at andThen_def)
  next
    case (Cons a rest)
    then have "filled s a" using map_inv_filled[OF inv, of a] by simp
    with n Cons show ?thesis
      by (simp add: mapGetFirst_def get_next_at filled_get_key andThen_def)
  qed
qed

lemma mapGetNext_unset: "iterator mp = None \<Longrightarrow> mapGetNext s (Some mp) = Inr (Some mp, None)"
  by (simp add: mapGetNext_def)

lemma mapGetNext_at_end:
  "iterator mp = Some a \<Longrightarrow> next_at s a = Some None \<Longrightarrow>
   mapGetNext s (Some mp) = Inr (Some mp, None)"
  by (simp add: mapGetNext_def get_next_at andThen_def)

lemma mapGetNext_advance:
  "iterator mp = Some a \<Longrightarrow> next_at s a = Some (Some b) \<Longrightarrow> filled s b \<Longrightarrow>
   mapGetNext s (Some mp) = Inr (Some (mp\<lparr>iterator := Some b\<rparr>), key_at s b)"
  by (simp add: mapGetNext_def get_next_at filled_get_key andThen_def)

lemma enumerate_rest_chain:
  assumes "chain s (Some a) (a # rest)" and "\<forall>b\<in>set rest. filled s b" and "iterator mp = Some a"
  shows "enumerate_rest s mp acc =
     Some (Inr (mp\<lparr>iterator := Some (last (a # rest))\<rparr>, acc @ map (key_at s) rest))"
  using assms
proof (induction rest arbitrary: a mp acc)
  case Nil
  then have "next_at s a = Some None" by (auto split: option.splits)
  with Nil.prems(3) have "mapGetNext s (Some mp) = Inr (Some mp, None)"
    by (rule mapGetNext_at_end)
  moreover have "mp\<lparr>iterator := Some a\<rparr> = mp" using Nil.prems(3) by simp
  ultimately show ?case by (subst enumerate_rest.simps) simp
next
  case (Cons b rest)
  from Cons.prems(1) have n: "next_at s a = Some (Some b)" and ch: "chain s (Some b) (b # rest)"
    by (auto split: option.splits)
  from Cons.prems(2) have fb: "filled s b" and fr: "\<forall>c\<in>set rest. filled s c" by auto
  from filled_key_at[OF fb] obtain kb where kb: "key_at s b = Some kb" by blast
  have g: "mapGetNext s (Some mp) = Inr (Some (mp\<lparr>iterator := Some b\<rparr>), key_at s b)"
    using Cons.prems(3) n fb by (rule mapGetNext_advance)
  have "enumerate_rest s (mp\<lparr>iterator := Some b\<rparr>) (acc @ [key_at s b]) =
     Some (Inr (mp\<lparr>iterator := Some b\<rparr>\<lparr>iterator := Some (last (b # rest))\<rparr>,
                (acc @ [key_at s b]) @ map (key_at s) rest))"
    using ch fr by (rule Cons.IH) simp
  then show ?case
    by (subst enumerate_rest.simps) (simp add: g kb)
qed

lemma enumerate_inv:
  assumes inv: "map_inv s mp as"
    and it: "as = [] \<Longrightarrow> iterator mp = None \<or> iterator mp = Some (first mp)"
  shows "\<exists>mp'. enumerate s mp = Some (Inr (mp', map (key_at s) as)) \<and>
     mapGetNext s (Some mp') = Inr (Some mp', None) \<and> same_functions mp mp' \<and>
     msize mp' = msize mp"
proof (cases as)
  case Nil
  have "enumerate s mp = Some (Inr (mp, []))"
    by (simp add: enumerate_def mapGetFirst_inv[OF inv] Nil)
  moreover have "mapGetNext s (Some mp) = Inr (Some mp, None)"
  proof (cases "iterator mp")
    case None
    then show ?thesis by (rule mapGetNext_unset)
  next
    case (Some a)
    with it Nil have "iterator mp = Some (first mp)" by simp
    moreover have "next_at s (first mp) = Some None"
      using map_inv_chain[OF inv] Nil by (auto split: option.splits)
    ultimately show ?thesis by (rule mapGetNext_at_end)
  qed
  ultimately show ?thesis using Nil by (auto simp: same_functions_refl)
next
  case (Cons a rest)
  let ?mp = "mp\<lparr>iterator := Some a\<rparr>"
  from map_inv_chain[OF inv] Cons have ch: "chain s (Some a) (a # rest)"
    by (auto split: option.splits)
  have fl: "\<forall>b\<in>set (a # rest). filled s b" using map_inv_filled[OF inv] Cons by simp
  then obtain ka where ka: "key_at s a = Some ka" using filled_key_at by fastforce
  have er: "enumerate_rest s ?mp [key_at s a] =
      Some (Inr (?mp\<lparr>iterator := Some (last (a # rest))\<rparr>, [key_at s a] @ map (key_at s) rest))"
    using ch by (rule enumerate_rest_chain) (use fl in auto)
  have e: "enumerate s mp = Some (Inr (mp\<lparr>iterator := Some (last (a # rest))\<rparr>, map (key_at s) as))"
    using er by (simp add: enumerate_def mapGetFirst_inv[OF inv] Cons ka)
  have "chain s (Some a) ((a # rest) @ [])" using ch by simp
  from chain_last_next[OF this] have "next_at s (last (a # rest)) = Some None" by simp
  then have "mapGetNext s (Some (mp\<lparr>iterator := Some (last (a # rest))\<rparr>)) =
      Inr (Some (mp\<lparr>iterator := Some (last (a # rest))\<rparr>), None)"
    by (intro mapGetNext_at_end) auto
  with e show ?thesis by (auto simp: same_functions_def)
qed

lemma same_functions_trans:
  "same_functions a b \<Longrightarrow> same_functions b c \<Longrightarrow> same_functions a c"
  by (simp add: same_functions_def)

lemma puts_inv:
  assumes "puts s mp kds s' mp'" and "map_inv s mp as"
    and "lawful (compare_keys mp) (copy_key mp)"
    and "as = [] \<Longrightarrow> iterator mp = None \<or> iterator mp = Some (first mp)"
  shows "\<exists>as'. map_inv s' mp' as' \<and> same_functions mp mp' \<and>
     (as' = [] \<longrightarrow> iterator mp' = None \<or> iterator mp' = Some (first mp'))"
  using assms
proof (induction arbitrary: as rule: puts.induct)
  case (puts_Nil s mp)
  then show ?case by (auto simp: same_functions_refl)
next
  case (puts_Cons s mp_ptr k d s1 mp1 mp kds s' mp')
  from puts_Cons.hyps(1,2) have "mapPut s (Some mp) (Some k) (Some d) =
      Some (Inr (s1, Some mp1, MAP_SUCCESS))" by simp
  from mapPut_evolves[OF puts_Cons.prems(1,2) this]
  obtain as1 where e: "evolves s mp as s1 mp1 as1" and i: "iterator mp1 = None" by auto
  from e have inv1: "map_inv s1 mp1 as1" and sf: "same_functions mp mp1"
    by (simp_all add: evolves_def)
  from sf puts_Cons.prems(2) have l1: "lawful (compare_keys mp1) (copy_key mp1)"
    by (simp add: same_functions_def)
  from puts_Cons.IH[OF inv1 l1] i obtain as' where
    "map_inv s' mp' as'" "same_functions mp1 mp'"
    "as' = [] \<longrightarrow> iterator mp' = None \<or> iterator mp' = Some (first mp')"
    by auto
  with sf show ?case by (blast intro: same_functions_trans)
qed

lemma mapCreate_no_memory:
  assumes "False \<in> set (take 2 (mallocs s))"
  shows "\<exists>s''. mapCreate s (Some cd) (Some ck) (Some fd) (Some fk) (Some cmp) = Inr (s'', None)"
proof (cases "mallocs s")
  case Nil
  with assms show ?thesis by simp
next
  case (Cons a l)
  show ?thesis
  proof (cases a)
    case False
    with Cons show ?thesis by (simp add: create_defs)
  next
    case True
    show ?thesis
    proof (cases l)
      case Nil
      with assms Cons True show ?thesis by simp
    next
      case (Cons b l')
      with assms \<open>mallocs s = a # l\<close> True have "\<not> b" by auto
      with Cons \<open>mallocs s = a # l\<close> True show ?thesis by (simp add: create_defs)
    qed
  qed
qed

lemma mapCreate_Some:
  assumes "mapCreate s cdo cko fdo fko cmpo = Inr (s', Some mp)"
  shows "msize mp = 0 \<and> first mp = brk s \<and> iterator mp = Some (brk s) \<and>
     cdo = Some (copy_data mp) \<and> cko = Some (copy_key mp) \<and> fdo = Some (free_data mp) \<and>
     fko = Some (free_key mp) \<and> cmpo = Some (compare_keys mp) \<and>
     cells s' = (cells s)(brk s \<mapsto> \<lparr>data = Val None, key = Val None, nxt = Val None\<rparr>) \<and>
     brk s' = Suc (brk s) \<and> world s' = world s \<and> mallocs s' = drop 2 (mallocs s)"
proof -
  from assms obtain cd ck fd fk cmp where
    e: "cdo = Some cd" "cko = Some ck" "fdo = Some fd" "fko = Some fk" "cmpo = Some cmp"
    by (auto simp: mapCreate_def split: option.splits)
  have "\<not> False \<in> set (take 2 (mallocs s))"
    using mapCreate_no_memory[of s cd ck fd fk cmp] assms e by auto
  from mapCreate_success[OF this, of cd ck fd fk cmp] assms e show ?thesis by auto
qed

lemma mapCreate_inv:
  assumes "mapCreate s cdo cko fdo fko cmpo = Inr (s', Some mp)"
  shows "map_inv s' mp []"
  using mapCreate_Some[OF assms]
  by (simp add: map_inv_def next_at_def)

lemma sorted_keys:
  "sorted_wrt (before mp s) as = sorted_wrt (\<lambda>x y. compare_keys mp x y < 0) (map (key_at s) as)"
  by (simp add: sorted_wrt_map before_def[abs_def])

lemma lawful_refl: "lawful cmp ck \<Longrightarrow> cmp (Some x) (Some x) = 0"
  using lawful_sgn[of cmp ck x x] by (simp add: sgn_if split: if_splits)

lemma map_inv_keys_distinct:
  assumes inv: "map_inv s mp as" and l: "lawful (compare_keys mp) (copy_key mp)"
  shows "distinct (map (key_at s) as)"
proof -
  have "sorted_wrt (\<lambda>x y. x \<noteq> y) (map (key_at s) as)"
    unfolding sorted_wrt_map
    using map_inv_sorted[OF inv]
  proof (rule sorted_wrt_mono_rel[rotated])
    fix a b assume a: "a \<in> set as" and b: "b \<in> set as" and ab: "before mp s a b"
    from map_inv_key[OF inv a] obtain ka where ka: "key_at s a = Some ka" by blast
    show "key_at s a \<noteq> key_at s b"
    proof
      assume "key_at s a = key_at s b"
      with ab ka have "compare_keys mp (Some ka) (Some ka) < 0" by (simp add: before_def)
      with lawful_refl[OF l, of ka] show False by simp
    qed
  qed
  then show ?thesis by (simp add: distinct_conv_nth sorted_wrt_iff_nth_less) (metis nat_neq_iff)
qed


lemma fresh_created:
  "mapCreate (mem (start [] [])) (Some copyInt) (Some copyInt) (Some freeInt) (Some freeInt)
     (Some compareInts) = Inr (fresh_mem, Some fresh_map)"
  by (simp add: start_def create_defs fresh_mem_def fresh_map_def)

lemma demo_puts: "puts fresh_mem fresh_map [(1, 10), (3, 30)] demo_mem demo_map"
proof -
  let ?s1 = "\<lparr>cells = (\<lambda>a. None)
        (0 \<mapsto> \<lparr>data = Val None, key = Val None, nxt = Val (Some 1)\<rparr>,
         1 \<mapsto> \<lparr>data = Val (Some 10), key = Val (Some 1), nxt = Val None\<rparr>),
      brk = 2, mallocs = [], world = []\<rparr> :: (int, int, bool list) memory"
  let ?m1 = "fresh_map\<lparr>msize := 1, iterator := None\<rparr>"
  have 1: "mapPut fresh_mem (Some fresh_map) (Some 1) (Some 10) = Some (Inr (?s1, Some ?m1, MAP_SUCCESS))"
    by (simp add: run_defs fresh_mem_def fresh_map_def fun_eq_iff)
  have 2: "mapPut ?s1 (Some ?m1) (Some 3) (Some 30) = Some (Inr (demo_mem, Some demo_map, MAP_SUCCESS))"
    by (simp add: run_defs fresh_map_def demo_mem_def demo_map_def fun_eq_iff)
  show ?thesis
    by (rule puts_Cons[OF 1 refl]) (rule puts_Cons[OF 2 refl], rule puts_Nil)
qed

text \<open>
  Claim C4. A map is created and any sequence of \<^verbatim>\<open>mapPut\<close> calls, each returning
  \<^verbatim>\<open>MAP_SUCCESS\<close>, is applied to it. Then the client's loop (\<^verbatim>\<open>mapGetFirst\<close>, then \<^verbatim>\<open>mapGetNext\<close>
  until \<^verbatim>\<open>NULL\<close>) ends and returns non-\<^verbatim>\<open>NULL\<close> keys that are strictly increasing under
  \<^verbatim>\<open>compare_keys\<close> and pairwise different; their number is the size of the map, and the
  next \<^verbatim>\<open>mapGetNext\<close> returns \<^verbatim>\<open>NULL\<close>. The comparison is assumed lawful.
\<close>

theorem enumeration_after_puts:
  assumes l: "lawful cmp ck"
    and c: "mapCreate s0 (Some cd) (Some ck) (Some fd) (Some fk) (Some cmp) = Inr (s, Some mp)"
    and p: "puts s mp kds s' mp'"
  shows "\<exists>mp'' ks. enumerate s' mp' = Some (Inr (mp'', ks)) \<and>
     sorted_wrt (\<lambda>x y. cmp x y < 0) ks \<and> distinct ks \<and> list_all (\<lambda>k. k \<noteq> None) ks \<and>
     int (length ks) = mapGetSize (Some mp') \<and>
     mapGetNext s' (Some mp'') = Inr (Some mp'', None)"
proof -
  note f = mapCreate_Some[OF c]
  have inv: "map_inv s mp []" using c by (rule mapCreate_inv)
  from f have fn: "compare_keys mp = cmp" "copy_key mp = ck" by auto
  have lm: "lawful (compare_keys mp) (copy_key mp)" using l by (simp add: fn)
  from puts_inv[OF p inv lm] f obtain as' where inv': "map_inv s' mp' as'"
    and sf: "same_functions mp mp'"
    and it: "as' = [] \<longrightarrow> iterator mp' = None \<or> iterator mp' = Some (first mp')"
    by auto
  from sf fn have fn': "compare_keys mp' = cmp" "copy_key mp' = ck"
    by (simp_all add: same_functions_def)
  from enumerate_inv[OF inv'] it obtain mp'' where
    e: "enumerate s' mp' = Some (Inr (mp'', map (key_at s') as'))"
    and g: "mapGetNext s' (Some mp'') = Inr (Some mp'', None)"
    by auto
  have "sorted_wrt (\<lambda>x y. cmp x y < 0) (map (key_at s') as')"
    using map_inv_sorted[OF inv'] unfolding sorted_keys fn' .
  moreover have "lawful (compare_keys mp') (copy_key mp')" using l by (simp add: fn')
  then have "distinct (map (key_at s') as')"
    using inv' by (intro map_inv_keys_distinct)
  moreover have "list_all (\<lambda>k. k \<noteq> None) (map (key_at s') as')"
    unfolding list_all_iff using map_inv_key[OF inv'] by auto
  moreover have "int (length (map (key_at s') as')) = mapGetSize (Some mp')"
    using map_inv_size[OF inv'] by (simp add: mapGetSize_def)
  ultimately show ?thesis using e g by blast
qed

theorem enumeration_after_puts_witness:
  "\<exists>mp'' ks. enumerate demo_mem demo_map = Some (Inr (mp'', ks)) \<and>
     sorted_wrt (\<lambda>x y. compareInts x y < 0) ks \<and> distinct ks \<and> list_all (\<lambda>k. k \<noteq> None) ks \<and>
     int (length ks) = mapGetSize (Some demo_map) \<and>
     mapGetNext demo_mem (Some mp'') = Inr (Some mp'', None)"
  using enumeration_after_puts[OF lawful_ints fresh_created demo_puts] .

section \<open>Invalidation of the iterator\<close>









lemma map_of_handle_Some:
  "map_of_handle \<sigma> (Some i) = Inr mo \<Longrightarrow>
   \<exists>mp. i < length (maps \<sigma>) \<and> maps \<sigma> ! i = Some mp \<and> mo = Some mp"
  by (cases "i < length (maps \<sigma>)"; cases "maps \<sigma> ! i") (auto simp: map_of_handle_def)

lemma map_of_handle_None: "map_of_handle \<sigma> None = Inr None"
  by (simp add: map_of_handle_def)








lemmas clear_defs = mapClear_def freeList.simps




section \<open>Freeing a list\<close>

lemma filled_assigned: "filled s a \<Longrightarrow> assigned s a"
  by (auto simp: filled_def assigned_def split: option.splits field.splits)

lemma freeNode_assigned:
  "assigned s a \<Longrightarrow>
   \<exists>w. freeNode s mp (Some a) = Inr (s\<lparr>world := w, cells := (cells s)(a := None)\<rparr>)"
  by (auto simp: assigned_def exec_defs not_Indeterminate split: option.splits)

lemma freeNode_result:
  "freeNode s mp (Some a) = Inr s' \<Longrightarrow>
   cells s' = (cells s)(a := None) \<and> brk s' = brk s \<and> mallocs s' = mallocs s \<and> assigned s a"
  by (auto simp: assigned_def exec_defs Let_def split: option.splits field.splits sum.splits)

lemma next_at_free: "b \<noteq> a \<Longrightarrow> cells s' = (cells s)(a := None) \<Longrightarrow> next_at s' b = next_at s b"
  by (simp add: next_at_def)

text \<open>\<^verbatim>\<open>freeList\<close> on a chain ends; when it returns, exactly the nodes of the chain are freed.\<close>

lemma freeList_chain:
  assumes "chain s p as"
  shows "\<exists>r. freeList s mp p = Some r \<and>
     (\<forall>s'. r = Inr s' \<longrightarrow> list_all (assigned s) as \<and> cells s' = without s as \<and>
        brk s' = brk s \<and> mallocs s' = mallocs s) \<and>
     (list_all (assigned s) as \<longrightarrow> (\<exists>s'. r = Inr s'))"
  using assms
proof (induction as arbitrary: s p)
  case Nil
  then show ?case by (subst freeList.simps) (simp add: without_def)
next
  case (Cons a as)
  from Cons.prems obtain q where p: "p = Some a" and n: "next_at s a = Some q"
    and ch: "chain s q as" by (auto split: option.splits)
  have gn: "get_next s (Some a) = Inr q" using n by (rule get_next_at)
  have notin: "a \<notin> set as" using Cons.prems by (rule chain_head_notin)
  show ?case
  proof (cases "freeNode s mp (Some a)")
    case (Inl e)
    then have "\<not> assigned s a" using freeNode_assigned[of s a mp] by auto
    moreover have "freeList s mp p = Some (Inl e)"
      using Inl gn p by (subst freeList.simps) simp
    ultimately show ?thesis by simp
  next
    case (Inr s1)
    note f = freeNode_result[OF Inr]
    have ch1: "chain s1 q as"
      using ch
    proof (rule chain_frame)
      fix b assume "b \<in> set as"
      then have "b \<noteq> a" using notin by auto
      then show "next_at s1 b = next_at s b" using f by (simp add: next_at_def)
    qed
    from Cons.IH[OF ch1, of ] obtain r where r: "freeList s1 mp q = Some r"
      and c: "\<forall>s'. r = Inr s' \<longrightarrow> list_all (assigned s1) as \<and> cells s' = without s1 as \<and>
        brk s' = brk s1 \<and> mallocs s' = mallocs s1"
      and t: "list_all (assigned s1) as \<longrightarrow> (\<exists>s'. r = Inr s')"
      by blast
    have as1: "list_all (assigned s1) as = list_all (assigned s) as"
      unfolding list_all_iff using notin f by (auto simp: assigned_def)
    have w: "without s1 as = without s (a # as)"
      using f by (auto simp: without_def fun_eq_iff)
    have "freeList s mp p = Some r"
      using gn Inr r p by (subst freeList.simps) simp
    with c t f show ?thesis unfolding as1 w by auto
  qed
qed

lemma freeList_assigned:
  assumes "chain s p as" and "list_all (assigned s) as"
  shows "\<exists>s'. freeList s mp p = Some (Inr s') \<and> cells s' = without s as \<and>
     brk s' = brk s \<and> mallocs s' = mallocs s"
  using freeList_chain[OF assms(1), of mp] assms(2) by auto

section \<open>mapClear and mapDestroy\<close>

lemma mapClear_null: "mapClear s None = Some (Inr (s, None, MAP_NULL_ARGUMENT))"
  by (simp add: mapClear_def)

lemma mapClear_inv:
  assumes inv: "map_inv s mp as"
  shows "\<exists>s' n0. cells s (first mp) = Some n0 \<and>
     mapClear s (Some mp) = Some (Inr (s', Some (mp\<lparr>msize := 0\<rparr>), MAP_SUCCESS)) \<and>
     cells s' = (without s as)(first mp \<mapsto> n0\<lparr>nxt := Val None\<rparr>) \<and> brk s' = brk s \<and>
     mallocs s' = mallocs s"
proof -
  from map_inv_chain[OF inv] obtain q where n: "next_at s (first mp) = Some q"
    and ch: "chain s q as" by (auto split: option.splits)
  from n obtain n0 where n0: "cells s (first mp) = Some n0" by (auto dest: next_atD)
  have gn: "get_next s (Some (first mp)) = Inr q" using n by (rule get_next_at)
  have "list_all (assigned s) as"
    unfolding list_all_iff using map_inv_filled[OF inv] filled_assigned by blast
  with freeList_assigned[OF ch, of mp] obtain s1 where f: "freeList s mp q = Some (Inr s1)"
    and c: "cells s1 = without s as" "brk s1 = brk s" "mallocs s1 = mallocs s"
    by blast
  have "first mp \<notin> set as" using map_inv_distinct[OF inv] by simp
  then have c0: "cells s1 (first mp) = Some n0" using c n0 by (simp add: without_def)
  let ?s = "s1\<lparr>cells := (cells s1)(first mp \<mapsto> n0\<lparr>nxt := Val None\<rparr>)\<rparr>"
  have "mapClear s (Some mp) = Some (Inr (?s, Some (mp\<lparr>msize := 0\<rparr>), MAP_SUCCESS))"
    using gn f c0 by (simp add: mapClear_def andThenP_def set_next_def store_def)
  with n0 c show ?thesis by (intro exI[of _ ?s] exI[of _ n0]) simp
qed

lemma mapClear_evolves:
  assumes inv: "map_inv s mp as"
    and r: "mapClear s (Some mp) = Some (Inr (s', mo', res))"
  shows "\<exists>mp'. mo' = Some mp' \<and> evolves s mp as s' mp' [] \<and> res = MAP_SUCCESS"
proof -
  from mapClear_inv[OF inv] r obtain n0 where n0: "cells s (first mp) = Some n0"
    and e: "mo' = Some (mp\<lparr>msize := 0\<rparr>)" "res = MAP_SUCCESS"
    and c: "cells s' = (without s as)(first mp \<mapsto> n0\<lparr>nxt := Val None\<rparr>)" "brk s' = brk s"
    by auto
  have "first mp < brk s" using map_inv_below[OF inv] by simp
  then have "map_inv s' (mp\<lparr>msize := 0\<rparr>) []"
    by (simp add: map_inv_def next_at_def c)
  moreover have "untouched s (first mp # as) s'"
    by (intro untouchedI) (auto simp: c without_def)
  ultimately have "evolves s mp as s' (mp\<lparr>msize := 0\<rparr>) []"
    by (simp add: evolves_def same_functions_def)
  with e show ?thesis by simp
qed

lemma mapDestroy_null: "mapDestroy s None = Some (Inr s)"
  by (simp add: mapDestroy_def)

lemma mapDestroy_inv:
  assumes inv: "map_inv s mp as"
  shows "\<exists>s'. mapDestroy s (Some mp) = Some (Inr s') \<and> cells s' = without s (first mp # as) \<and>
     brk s' = brk s \<and> mallocs s' = mallocs s"
proof -
  from mapClear_inv[OF inv] obtain s1 n0 where n0: "cells s (first mp) = Some n0"
    and r: "mapClear s (Some mp) = Some (Inr (s1, Some (mp\<lparr>msize := 0\<rparr>), MAP_SUCCESS))"
    and c: "cells s1 = (without s as)(first mp \<mapsto> n0\<lparr>nxt := Val None\<rparr>)" "brk s1 = brk s"
      "mallocs s1 = mallocs s"
    by blast
  let ?s = "s1\<lparr>cells := (cells s1)(first mp := None)\<rparr>"
  have "mapDestroy s (Some mp) = Some (Inr ?s)"
    using r c by (simp add: mapDestroy_def andThenP_def free_def)
  moreover have "cells ?s = without s (first mp # as)"
    using c by (auto simp: without_def fun_eq_iff)
  ultimately show ?thesis using c by (intro exI[of _ ?s]) simp
qed


section \<open>Copying a map\<close>

subsection \<open>createNewList\<close>

declare createNewList_loop.simps [simp del]

lemma createNewList_loop_step:
  assumes "malloc_outcome s = (True, s0)"
  shows "createNewList_loop s (int (Suc n)) head =
     createNewList_loop
       (s0\<lparr>brk := Suc (brk s), cells := (cells s)(brk s \<mapsto>
              \<lparr>data = Indeterminate, key = Indeterminate, nxt = Val head\<rparr>)\<rparr>)
       (int n) (Some (brk s))"
proof -
  note f = malloc_outcome_fields[OF assms]
  have "\<not> int (Suc n) \<le> INT_MIN" by (simp add: INT_MIN_def)
  then show ?thesis
    using assms f
    by (subst createNewList_loop.simps)
       (simp add: malloc_node_def set_next_def store_def andThen_def del: of_nat_Suc, simp)
qed

lemma upt_rev_grow: "rev [Suc b..<Suc b + n] @ [b] = rev [b..<b + Suc n]"
  by (simp add: upt_conv_Cons)

lemma createNewList_loop_grow:
  assumes "False \<notin> set (take n (mallocs s))" and "chain s head hs" and "\<forall>a\<in>set hs. a < brk s"
  shows "\<exists>s'. createNewList_loop s (int n) head =
        Inr (s', if n = 0 then head else Some (brk s + n - 1)) \<and>
      chain s' (if n = 0 then head else Some (brk s + n - 1)) (rev [brk s..<brk s + n] @ hs) \<and>
      brk s' = brk s + n \<and> mallocs s' = drop n (mallocs s) \<and> world s' = world s \<and>
      (\<forall>a<brk s. cells s' a = cells s a) \<and>
      (\<forall>a\<in>{brk s..<brk s + n}. \<exists>q. cells s' a =
          Some \<lparr>data = Indeterminate, key = Indeterminate, nxt = Val q\<rparr>)"
  using assms
proof (induction n arbitrary: s head hs)
  case 0
  then show ?case by (subst createNewList_loop.simps) simp
next
  case (Suc n)
  obtain ok s0 where mo: "malloc_outcome s = (ok, s0)" by (cases "malloc_outcome s") auto
  from malloc_outcome_ok[OF mo] Suc.prems(1) have ok by (cases "mallocs s") auto
  with mo have mo': "malloc_outcome s = (True, s0)" by simp
  note f = malloc_outcome_fields[OF mo']
  let ?s2 = "s0\<lparr>brk := Suc (brk s), cells := (cells s)(brk s \<mapsto>
              \<lparr>data = Indeterminate, key = Indeterminate, nxt = Val head\<rparr>)\<rparr>"
  have tape: "False \<notin> set (take n (mallocs ?s2))"
    using Suc.prems(1) f by (cases "mallocs s") auto
  have notin: "brk s \<notin> set hs" using Suc.prems(3) by auto
  have "chain ?s2 head hs"
    using Suc.prems(2)
  proof (rule chain_frame)
    fix a assume "a \<in> set hs"
    then have "a \<noteq> brk s" using notin by auto
    then show "next_at ?s2 a = next_at s a" by (simp add: next_at_def)
  qed
  then have ch2: "chain ?s2 (Some (brk s)) (brk s # hs)" by (simp add: next_at_def)
  have below: "\<forall>a\<in>set (brk s # hs). a < brk ?s2" using Suc.prems(3) by auto
  from Suc.IH[OF tape ch2 below] obtain s' where
    r: "createNewList_loop ?s2 (int n) (Some (brk s)) =
        Inr (s', if n = 0 then Some (brk s) else Some (brk ?s2 + n - 1))"
    and c: "chain s' (if n = 0 then Some (brk s) else Some (brk ?s2 + n - 1))
        (rev [brk ?s2..<brk ?s2 + n] @ brk s # hs)"
    and b: "brk s' = brk ?s2 + n" "mallocs s' = drop n (mallocs ?s2)" "world s' = world ?s2"
    and u: "\<forall>a<brk ?s2. cells s' a = cells ?s2 a"
    and i: "\<forall>a\<in>{brk ?s2..<brk ?s2 + n}. \<exists>q. cells s' a =
          Some \<lparr>data = Indeterminate, key = Indeterminate, nxt = Val q\<rparr>"
    by blast
  have e: "(if n = 0 then Some (brk s) else Some (brk ?s2 + n - 1)) = Some (brk s + Suc n - 1)"
    by simp
  have l: "rev [brk ?s2..<brk ?s2 + n] @ brk s # hs = rev [brk s..<brk s + Suc n] @ hs"
    using upt_rev_grow[of "brk s" n] by simp
  have "createNewList_loop s (int (Suc n)) head = Inr (s', Some (brk s + Suc n - 1))"
    unfolding createNewList_loop_step[OF mo'] r e ..
  moreover have "chain s' (Some (brk s + Suc n - 1)) (rev [brk s..<brk s + Suc n] @ hs)"
    using c unfolding e l .
  moreover have "\<forall>a<brk s. cells s' a = cells s a" using u by auto
  moreover have "\<forall>a\<in>{brk s..<brk s + Suc n}. \<exists>q. cells s' a =
          Some \<lparr>data = Indeterminate, key = Indeterminate, nxt = Val q\<rparr>"
  proof
    fix a assume a: "a \<in> {brk s..<brk s + Suc n}"
    show "\<exists>q. cells s' a = Some \<lparr>data = Indeterminate, key = Indeterminate, nxt = Val q\<rparr>"
    proof (cases "a = brk s")
      case True
      then show ?thesis using u by simp
    next
      case False
      with a have "a \<in> {brk ?s2..<brk ?s2 + n}" by auto
      with i show ?thesis by blast
    qed
  qed
  ultimately show ?case using b f
    by (intro exI[of _ s']) (simp add: drop_Suc)
qed

lemma createNewList_loop_fail:
  assumes "False \<in> set (take n (mallocs s))"
    and "head = None \<or> (\<exists>a. head = Some a \<and> cells s a \<noteq> None)"
  shows "\<exists>s'. createNewList_loop s (int n) head = Inr (s', None) \<and> brk s \<le> brk s' \<and>
     (\<forall>a<brk s. head \<noteq> Some a \<longrightarrow> cells s' a = cells s a)"
  using assms
proof (induction n arbitrary: s head)
  case 0
  then show ?case by simp
next
  case (Suc n)
  obtain ok s0 where mo: "malloc_outcome s = (ok, s0)" by (cases "malloc_outcome s") auto
  note f = malloc_outcome_fields[OF mo]
  have big: "\<not> int (Suc n) \<le> INT_MIN" by (simp add: INT_MIN_def)
  show ?case
  proof (cases ok)
    case False
    with mo have mn: "malloc_node s = (s0, None)" by (simp add: malloc_node_def)
    from Suc.prems(2) f obtain s2 where fr: "free s0 head = Inr s2"
      and c: "brk s2 = brk s" "\<forall>a. head \<noteq> Some a \<longrightarrow> cells s2 a = cells s a"
      by (auto simp: free_def split: option.splits)
    have "createNewList_loop s (int (Suc n)) head = Inr (s2, None)"
      using big mn fr
      by (subst createNewList_loop.simps) (simp add: andThen_def del: of_nat_Suc)
    with c show ?thesis by auto
  next
    case True
    with mo have mo': "malloc_outcome s = (True, s0)" by simp
    let ?s2 = "s0\<lparr>brk := Suc (brk s), cells := (cells s)(brk s \<mapsto>
              \<lparr>data = Indeterminate, key = Indeterminate, nxt = Val head\<rparr>)\<rparr>"
    have tape: "False \<in> set (take n (mallocs ?s2))"
      using Suc.prems(1) f malloc_outcome_ok[OF mo'] by (cases "mallocs s") auto
    have "\<exists>a. Some (brk s) = Some a \<and> cells ?s2 a \<noteq> None" by simp
    then have "Some (brk s) = None \<or> (\<exists>a. Some (brk s) = Some a \<and> cells ?s2 a \<noteq> None)" ..
    from Suc.IH[OF tape this] obtain s' where
      r: "createNewList_loop ?s2 (int n) (Some (brk s)) = Inr (s', None)"
      and b: "brk ?s2 \<le> brk s'"
      and u: "\<forall>a<brk ?s2. Some (brk s) \<noteq> Some a \<longrightarrow> cells s' a = cells ?s2 a"
      by blast
    have "createNewList_loop s (int (Suc n)) head = Inr (s', None)"
      unfolding createNewList_loop_step[OF mo'] r ..
    moreover have "\<forall>a<brk s. cells s' a = cells s a" using u by auto
    ultimately show ?thesis using b by auto
  qed
qed


subsection \<open>The loop of copyList\<close>

lemma copyList_body_exec:
  assumes fa: "filled s a" and nb: "cells s b = Some nb" and ne: "a \<noteq> b"
    and cd: "copy_data mp (data_at s a) (world s) = (d', w1)"
    and ck: "copy_key mp (key_at s a) w1 = (k', w2)"
  shows "\<exists>s2. copyList_body s mp (Some b) (Some a) = Inr (s2, d' = None \<or> k' = None) \<and>
     cells s2 = (cells s)(b \<mapsto> nb\<lparr>data := Val d', key := Val k'\<rparr>) \<and>
     brk s2 = brk s \<and> mallocs s2 = mallocs s \<and> world s2 = w2"
proof -
  from filledD[OF fa] obtain na ka da where
    na: "cells s a = Some na" "key na = Val (Some ka)" "data na = Val da" by blast
  have e: "data_at s a = da" "key_at s a = Some ka"
    using na by (simp_all add: data_at_def key_at_def)
  show ?thesis
    using na nb ne cd ck unfolding e
    by (simp add: copyList_body_def exec_defs)
qed

lemma chain_allocated: "chain s p as \<Longrightarrow> a \<in> set as \<Longrightarrow> \<exists>q. next_at s a = Some q"
proof (induction as arbitrary: p)
  case Nil
  then show ?case by simp
next
  case (Cons b as)
  then show ?case by (cases "a = b") (auto split: option.splits)
qed

lemma chain_next_hd:
  "chain s p (b # bs) \<Longrightarrow>
   \<exists>q. next_at s b = Some q \<and> chain s q bs \<and> q = (case bs of [] \<Rightarrow> None | c # _ \<Rightarrow> Some c)"
  by (cases bs) (auto split: option.splits)


lemma without_same:
  "(\<And>a. a \<notin> set as \<Longrightarrow> cells s2 a = cells s a) \<Longrightarrow> without s2 as = without s as"
  by (auto simp: without_def fun_eq_iff)

lemma copyList_loop_chain:
  assumes "chain s sc as" and "list_all (filled s) as"
    and "chain s head (ds @ bs)" and "nc = (case bs of [] \<Rightarrow> None | b # _ \<Rightarrow> Some b)"
    and "list_all (assigned s) ds" and "length as \<le> length bs"
    and "set as \<inter> set (ds @ bs) = {}"
  shows "\<exists>r. copyList_loop s mp head nc sc = Some r \<and>
     (\<forall>s' res. r = Inr (s', res) \<longrightarrow> brk s' = brk s \<and> mallocs s' = mallocs s \<and>
        (\<forall>a. a \<notin> set (ds @ bs) \<longrightarrow> cells s' a = cells s a) \<and>
        (if res = MAP_SUCCESS
         then (\<forall>a. next_at s' a = next_at s a) \<and> (\<forall>a\<in>set ds. cells s' a = cells s a) \<and>
              list_all2 (\<lambda>a b. is_copy mp s a s' b) as (take (length as) bs) \<and>
              (\<forall>b\<in>set (drop (length as) bs). cells s' b = cells s b)
         else res = MAP_OUT_OF_MEMORY \<and> cells s' = without s (ds @ bs)))"
  using assms
proof (induction as arbitrary: s sc ds bs nc)
  case Nil
  then show ?case by (subst copyList_loop.simps) simp
next
  case (Cons a as)
  from Cons.prems(6) obtain b bs' where bs: "bs = b # bs'" by (cases bs) auto
  from Cons.prems(1) obtain qa where sc: "sc = Some a" and na: "next_at s a = Some qa"
    and cha: "chain s qa as" by (auto split: option.splits)
  have nc: "nc = Some b" using Cons.prems(4) bs by simp
  have chn: "chain s head (ds @ b # bs')" using Cons.prems(3) bs by simp
  have dist: "distinct (ds @ b # bs')" using chn by (rule chain_distinct)
  from chain_suffix[OF chn] have "chain s (Some b) (b # bs')" .
  from chain_next_hd[OF this] obtain qb where nb': "next_at s b = Some qb"
    and chb: "chain s qb bs'" and qb: "qb = (case bs' of [] \<Rightarrow> None | c # _ \<Rightarrow> Some c)"
    by blast
  from nb' obtain nb where nb: "cells s b = Some nb" "nxt nb = Val qb" by (auto dest: next_atD)
  have fa: "filled s a" using Cons.prems(2) by simp
  have ne: "a \<noteq> b" using Cons.prems(7) bs by auto
  obtain d' w1 where cd: "copy_data mp (data_at s a) (world s) = (d', w1)"
    by (cases "copy_data mp (data_at s a) (world s)") auto
  obtain k' w2 where ck: "copy_key mp (key_at s a) w1 = (k', w2)"
    by (cases "copy_key mp (key_at s a) w1") auto
  from copyList_body_exec[OF fa nb(1) ne cd ck] obtain s2 where
    body: "copyList_body s mp (Some b) (Some a) = Inr (s2, d' = None \<or> k' = None)"
    and c2: "cells s2 = (cells s)(b \<mapsto> nb\<lparr>data := Val d', key := Val k'\<rparr>)"
    and b2: "brk s2 = brk s" "mallocs s2 = mallocs s"
    by blast
  have nx2: "next_at s2 x = next_at s x" for x using nb by (simp add: next_at_def c2)
  have other: "cells s2 x = cells s x" if "x \<noteq> b" for x using that by (simp add: c2)
  have chn2: "chain s2 head (ds @ b # bs')" using chn by (rule chain_frame) (rule nx2)
  show ?case
  proof (cases "d' = None \<or> k' = None")
    case True
    from freeList_chain[OF chn2, of mp] obtain r' where fl: "freeList s2 mp head = Some r'"
      and fr: "\<forall>s'. r' = Inr s' \<longrightarrow> cells s' = without s2 (ds @ b # bs') \<and>
        brk s' = brk s2 \<and> mallocs s' = mallocs s2"
      by blast
    have w: "without s2 (ds @ b # bs') = without s (ds @ b # bs')"
    proof (rule without_same)
      fix x assume "x \<notin> set (ds @ b # bs')"
      then have "x \<noteq> b" by auto
      then show "cells s2 x = cells s x" by (rule other)
    qed
    show ?thesis
    proof (cases r')
      case (Inl e)
      have "copyList_loop s mp head nc sc = Some (Inl e)"
        using body True fl Inl unfolding sc nc
        by (subst copyList_loop.simps) simp
      then show ?thesis by simp
    next
      case (Inr s3)
      have l: "copyList_loop s mp head nc sc = Some (Inr (s3, MAP_OUT_OF_MEMORY))"
        using body True fl Inr unfolding sc nc
        by (subst copyList_loop.simps) simp
      from fr Inr have c3: "cells s3 = without s (ds @ bs)" "brk s3 = brk s"
        "mallocs s3 = mallocs s"
        unfolding w bs using b2 by auto
      then have "\<forall>a. a \<notin> set (ds @ bs) \<longrightarrow> cells s3 a = cells s a"
        by (simp add: without_def)
      with c3 l show ?thesis by simp
    qed
  next
    case False
    then obtain dv kv where v: "d' = Some dv" "k' = Some kv" by auto
    have gna: "get_next s2 (Some a) = Inr qa" using na nx2 by (intro get_next_at) simp
    have gnb: "get_next s2 (Some b) = Inr qb" using nb' nx2 by (intro get_next_at) simp
    have step: "copyList_loop s mp head nc sc = copyList_loop s2 mp head qb qa"
      using body False gna gnb unfolding sc nc
      by (subst copyList_loop.simps) simp
    have p1: "chain s2 qa as" using cha by (rule chain_frame) (rule nx2)
    have bnot: "b \<notin> set as" using Cons.prems(7) bs by auto
    have p2: "list_all (filled s2) as"
      unfolding list_all_iff
    proof
      fix x assume x: "x \<in> set as"
      then have "x \<noteq> b" using bnot by auto
      then have "cells s2 x = cells s x" by (rule other)
      moreover have "filled s x" using Cons.prems(2) x by (simp add: list_all_iff)
      ultimately show "filled s2 x" using filled_cong by blast
    qed
    have p3: "chain s2 head ((ds @ [b]) @ bs')" using chn2 by simp
    have bd: "b \<notin> set ds" using dist by auto
    have p5: "list_all (assigned s2) (ds @ [b])"
      unfolding list_all_iff
    proof
      fix x assume "x \<in> set (ds @ [b])"
      then consider "x = b" | "x \<in> set ds" "x \<noteq> b" using bd by auto
      then show "assigned s2 x"
      proof cases
        case 1
        then show ?thesis by (simp add: assigned_def c2)
      next
        case 2
        then have "assigned s x" using Cons.prems(5) by (simp add: list_all_iff)
        with other[OF 2(2)] show ?thesis by (simp add: assigned_def)
      qed
    qed
    have p6: "length as \<le> length bs'" using Cons.prems(6) bs by simp
    have p7: "set as \<inter> set ((ds @ [b]) @ bs') = {}" using Cons.prems(7) bs by auto
    from Cons.IH[OF p1 p2 p3 qb p5 p6 p7] obtain r where
      r: "copyList_loop s2 mp head qb qa = Some r"
      and ih: "\<forall>s' res. r = Inr (s', res) \<longrightarrow> brk s' = brk s2 \<and> mallocs s' = mallocs s2 \<and>
        (\<forall>a. a \<notin> set ((ds @ [b]) @ bs') \<longrightarrow> cells s' a = cells s2 a) \<and>
        (if res = MAP_SUCCESS
         then (\<forall>a. next_at s' a = next_at s2 a) \<and> (\<forall>a\<in>set (ds @ [b]). cells s' a = cells s2 a) \<and>
              list_all2 (\<lambda>a b. is_copy mp s2 a s' b) as (take (length as) bs') \<and>
              (\<forall>b\<in>set (drop (length as) bs'). cells s' b = cells s2 b)
         else res = MAP_OUT_OF_MEMORY \<and> cells s' = without s2 ((ds @ [b]) @ bs'))"
      by blast
    have fin: "brk s' = brk s \<and> mallocs s' = mallocs s \<and>
        (\<forall>a. a \<notin> set (ds @ bs) \<longrightarrow> cells s' a = cells s a) \<and>
        (if res = MAP_SUCCESS
         then (\<forall>a. next_at s' a = next_at s a) \<and> (\<forall>a\<in>set ds. cells s' a = cells s a) \<and>
              list_all2 (\<lambda>a b. is_copy mp s a s' b) (a # as) (take (length (a # as)) bs) \<and>
              (\<forall>b\<in>set (drop (length (a # as)) bs). cells s' b = cells s b)
         else res = MAP_OUT_OF_MEMORY \<and> cells s' = without s (ds @ bs))"
      if rr: "r = Inr (s', res)" for s' res
    proof -
      from ih rr have i1: "brk s' = brk s2" "mallocs s' = mallocs s2"
        and i2: "\<And>x. x \<notin> set ((ds @ [b]) @ bs') \<Longrightarrow> cells s' x = cells s2 x"
        and i3: "if res = MAP_SUCCESS
         then (\<forall>a. next_at s' a = next_at s2 a) \<and> (\<forall>a\<in>set (ds @ [b]). cells s' a = cells s2 a) \<and>
              list_all2 (\<lambda>a b. is_copy mp s2 a s' b) as (take (length as) bs') \<and>
              (\<forall>b\<in>set (drop (length as) bs'). cells s' b = cells s2 b)
         else res = MAP_OUT_OF_MEMORY \<and> cells s' = without s2 ((ds @ [b]) @ bs')"
        by auto
      have o: "\<forall>x. x \<notin> set (ds @ bs) \<longrightarrow> cells s' x = cells s x"
      proof (intro allI impI)
        fix x assume x: "x \<notin> set (ds @ bs)"
        then have "x \<noteq> b" "x \<notin> set ((ds @ [b]) @ bs')" unfolding bs by auto
        then show "cells s' x = cells s x" using i2[of x] other[of x] by simp
      qed
      show ?thesis
      proof (cases "res = MAP_SUCCESS")
        case True
        with i3 have n: "\<forall>a. next_at s' a = next_at s2 a"
          and dcell: "\<forall>a\<in>set (ds @ [b]). cells s' a = cells s2 a"
          and l2: "list_all2 (\<lambda>a b. is_copy mp s2 a s' b) as (take (length as) bs')"
          and dr: "\<forall>b\<in>set (drop (length as) bs'). cells s' b = cells s2 b"
          by auto
        have cb: "cells s' b = Some (nb\<lparr>data := Val d', key := Val k'\<rparr>)"
          using dcell c2 by simp
        have "is_copy mp s a s' b"
          unfolding is_copy_def
        proof (intro conjI)
          show "filled s' b" using cb v by (simp add: filled_def)
          have "key_at s' b = fst (copy_key mp (key_at s a) w1)"
            using cb ck by (simp add: key_at_def)
          then show "\<exists>w. key_at s' b = fst (copy_key mp (key_at s a) w)" ..
          have "data_at s' b = fst (copy_data mp (data_at s a) (world s))"
            using cb cd by (simp add: data_at_def)
          then show "\<exists>w. data_at s' b = fst (copy_data mp (data_at s a) w)" ..
        qed
        moreover have "list_all2 (\<lambda>a b. is_copy mp s a s' b) as (take (length as) bs')"
          using l2
        proof (rule list.rel_mono_strong)
          fix x y assume x: "x \<in> set as" and c: "is_copy mp s2 x s' y"
          from x bnot have "x \<noteq> b" by auto
          then have "cells s2 x = cells s x" by (rule other)
          then have "key_at s2 x = key_at s x" "data_at s2 x = data_at s x"
            by (simp_all add: key_at_def data_at_def)
          with c show "is_copy mp s x s' y" by (simp add: is_copy_def)
        qed
        ultimately have l: "list_all2 (\<lambda>a b. is_copy mp s a s' b) (a # as)
            (take (length (a # as)) bs)"
          unfolding bs by simp
        have nn: "\<forall>x. next_at s' x = next_at s x" using n nx2 by simp
        have dd: "\<forall>x\<in>set ds. cells s' x = cells s x"
        proof
          fix x assume x: "x \<in> set ds"
          with bd have "x \<noteq> b" by auto
          then have "cells s2 x = cells s x" by (rule other)
          with dcell x show "cells s' x = cells s x" by simp
        qed
        have rest: "\<forall>x\<in>set (drop (length (a # as)) bs). cells s' x = cells s x"
        proof
          fix x assume "x \<in> set (drop (length (a # as)) bs)"
          then have x: "x \<in> set (drop (length as) bs')" unfolding bs by simp
          then have "x \<in> set bs'" by (rule in_set_dropD)
          with dist have "x \<noteq> b" by auto
          then have "cells s2 x = cells s x" by (rule other)
          with dr x show "cells s' x = cells s x" by simp
        qed
        from i1 b2 o nn dd l rest True show ?thesis by simp
      next
        case False
        with i3 have "res = MAP_OUT_OF_MEMORY" "cells s' = without s2 ((ds @ [b]) @ bs')"
          by auto
        moreover have "without s2 (ds @ b # bs') = without s (ds @ b # bs')"
        proof (rule without_same)
          fix x assume "x \<notin> set (ds @ b # bs')"
          then have "x \<noteq> b" by auto
          then show "cells s2 x = cells s x" by (rule other)
        qed
        ultimately show ?thesis using i1 b2 o False unfolding bs by simp
      qed
    qed
    show ?thesis
      unfolding step r
      by (rule exI[of _ r], rule conjI, rule refl, intro allI impI, erule fin)
  qed
qed


subsection \<open>copyList and mapCopy\<close>

lemma mapCreate_result:
  "\<exists>s1 cr. mapCreate s (Some cd) (Some ck) (Some fd) (Some fk) (Some cmp) = Inr (s1, cr) \<and>
     (cr = None \<longrightarrow> cells s1 = cells s \<and> brk s1 = brk s)"
proof (cases "False \<in> set (take 2 (mallocs s))")
  case False
  from mapCreate_success[OF False, of cd ck fd fk cmp] show ?thesis by auto
next
  case True
  show ?thesis
  proof (cases "mallocs s")
    case Nil
    with True show ?thesis by simp
  next
    case (Cons a l)
    show ?thesis
    proof (cases a)
      case False
      with Cons show ?thesis by (simp add: create_defs)
    next
      case a: True
      show ?thesis
      proof (cases l)
        case Nil
        with True Cons a show ?thesis by simp
      next
        case (Cons b l')
        with True \<open>mallocs s = a # l\<close> a have "\<not> b" by auto
        with Cons \<open>mallocs s = a # l\<close> a show ?thesis by (simp add: create_defs)
      qed
    qed
  qed
qed

lemma mapDestroy_chain:
  assumes ch: "chain s (Some (first mp)) (first mp # as)" and asg: "list_all (assigned s) as"
  shows "\<exists>s'. mapDestroy s (Some mp) = Some (Inr s') \<and> cells s' = without s (first mp # as) \<and>
     brk s' = brk s"
proof -
  from ch obtain q where n: "next_at s (first mp) = Some q"
    and chq: "chain s q as" by (auto split: option.splits)
  from n obtain n0 where n0: "cells s (first mp) = Some n0" by (auto dest: next_atD)
  have gn: "get_next s (Some (first mp)) = Inr q" using n by (rule get_next_at)
  from freeList_assigned[OF chq asg, of mp] obtain s1 where f: "freeList s mp q = Some (Inr s1)"
    and c: "cells s1 = without s as" "brk s1 = brk s"
    by blast
  have "first mp \<notin> set as" using chain_distinct[OF ch] by simp
  then have c0: "cells s1 (first mp) = Some n0" using c n0 by (simp add: without_def)
  let ?s = "s1\<lparr>cells := (cells s1)(first mp := None)\<rparr>"
  have "mapDestroy s (Some mp) = Some (Inr ?s)"
    using gn f c0
    by (simp add: mapDestroy_def mapClear_def andThenP_def set_next_def store_def free_def)
  moreover have "cells ?s = without s (first mp # as)"
    using c by (auto simp: without_def fun_eq_iff)
  ultimately show ?thesis using c by (intro exI[of _ ?s]) simp
qed

lemma rev_upt_facts:
  "0 < n \<Longrightarrow> rev [b..<b + n] = (b + n - 1) # rev [b..<b + n - 1]"
  "set (rev [b..<b + n]) = {b..<b + n}" "length (rev [b..<b + n]) = n"
proof -
  assume "0 < n"
  then obtain m where "n = Suc m" by (cases n) auto
  then show "rev [b..<b + n] = (b + n - 1) # rev [b..<b + n - 1]" by simp
qed simp_all

text \<open>
  \<^verbatim>\<open>copyList\<close> on a well-formed, non-empty source and a freshly created copy. Whatever it
  returns, nothing below the old end of the store has changed.
\<close>

lemma copyList_inv:
  assumes inv: "map_inv s mp as" and ne: "as \<noteq> []"
    and s1: "cells s1 = (cells s)(brk s \<mapsto> \<lparr>data = Val None, key = Val None, nxt = Val None\<rparr>)"
      "brk s1 = Suc (brk s)"
    and c: "first c = brk s"
    and r: "copyList s1 (Some mp) (Some c) = Some (Inr (s3, res))"
  shows "(\<forall>a<brk s. cells s3 a = cells s a) \<and> brk s1 \<le> brk s3 \<and>
     (if res = MAP_SUCCESS
      then \<exists>bs. chain s3 (Some (first c)) (first c # bs) \<and>
             (\<forall>b\<in>set bs. brk s < b \<and> b < brk s3) \<and>
             list_all2 (\<lambda>a b. is_copy mp s a s3 b) as bs
      else res = MAP_OUT_OF_MEMORY \<and>
           cells s3 (brk s) = Some \<lparr>data = Val None, key = Val None, nxt = Val None\<rparr>)"
proof -
  let ?n = "length as"
  have sz: "msize mp = int ?n" using inv by (rule map_inv_size)
  have n0: "0 < ?n" using ne by simp
  have below: "\<And>a. a \<in> set (first mp # as) \<Longrightarrow> a < brk s" using inv by (rule map_inv_below)
  show ?thesis
  proof (cases "False \<in> set (take ?n (mallocs s1))")
    case True
    from createNewList_loop_fail[OF True, of None] obtain s2 where
      cn: "createNewList_loop s1 (int ?n) None = Inr (s2, None)"
      and b: "brk s1 \<le> brk s2" and u: "\<forall>a<brk s1. cells s2 a = cells s1 a"
      by auto
    have "copyList s1 (Some mp) (Some c) = Some (Inr (s2, MAP_OUT_OF_MEMORY))"
      using cn by (simp add: copyList_def createNewList_def sz andThenP_def)
    with r have e: "s3 = s2" "res = MAP_OUT_OF_MEMORY" by auto
    show ?thesis using b u s1 unfolding e by simp
  next
    case False
    define top where "top = brk s1 + ?n - 1"
    have "chain s1 None []" by simp
    from createNewList_loop_grow[OF False this] n0 obtain s2 where
      cn: "createNewList_loop s1 (int ?n) None = Inr (s2, Some top)"
      and ch: "chain s2 (Some top) (rev [brk s1..<brk s1 + ?n])"
      and b: "brk s2 = brk s1 + ?n"
      and u: "\<forall>a<brk s1. cells s2 a = cells s1 a"
      unfolding top_def by auto
    let ?bs = "rev [brk s1..<brk s1 + ?n]"
    let ?head = "Some top"
    have same: "cells s2 a = cells s a" if "a < brk s" for a
      using that u s1 by simp
    have nx: "next_at s2 a = next_at s a" if "a \<in> set (first mp # as)" for a
      using same[OF below[OF that]] by (rule next_at_cong)
    from map_inv_chain[OF inv] obtain q where q: "next_at s (first mp) = Some q"
      and chq: "chain s q as" by (auto split: option.splits)
    have gq: "get_next s2 (Some (first mp)) = Inr q"
      using q nx[of "first mp"] by (intro get_next_at) simp
    have p1: "chain s2 q as" using chq by (rule chain_frame) (use nx in auto)
    have p2: "list_all (filled s2) as"
      unfolding list_all_iff
    proof
      fix a assume a: "a \<in> set as"
      then have "cells s2 a = cells s a" using same below by simp
      moreover have "filled s a" using inv a by (rule map_inv_filled)
      ultimately show "filled s2 a" using filled_cong by blast
    qed
    have p3: "chain s2 ?head ([] @ ?bs)" using ch by simp
    have p4: "?head = (case ?bs of [] \<Rightarrow> None | b # _ \<Rightarrow> Some b)"
      using rev_upt_facts(1)[OF n0, of "brk s1"] by (simp add: top_def)
    have p5: "list_all (assigned s2) []" by simp
    have p6: "length as \<le> length ?bs" by simp
    have p7: "set as \<inter> set ([] @ ?bs) = {}"
    proof -
      have "\<forall>a\<in>set as. a < brk s" using below by simp
      then have "set as \<inter> {brk s1..<brk s1 + ?n} = {}" using s1(2) by auto
      then show ?thesis by simp
    qed
    from copyList_loop_chain[OF p1 p2 p3 p4 p5 p6 p7, of mp] obtain lr where
      lp: "copyList_loop s2 mp ?head ?head q = Some lr"
      and lprop: "\<forall>s' res. lr = Inr (s', res) \<longrightarrow> brk s' = brk s2 \<and> mallocs s' = mallocs s2 \<and>
        (\<forall>a. a \<notin> set ([] @ ?bs) \<longrightarrow> cells s' a = cells s2 a) \<and>
        (if res = MAP_SUCCESS
         then (\<forall>a. next_at s' a = next_at s2 a) \<and> (\<forall>a\<in>set []. cells s' a = cells s2 a) \<and>
              list_all2 (\<lambda>a b. is_copy mp s2 a s' b) as (take (length as) ?bs) \<and>
              (\<forall>b\<in>set (drop (length as) ?bs). cells s' b = cells s2 b)
         else res = MAP_OUT_OF_MEMORY \<and> cells s' = without s2 ([] @ ?bs))"
      by blast
    have cl: "copyList s1 (Some mp) (Some c) =
        andThenP (Some lr) (\<lambda>(s2, r).
           if r \<noteq> MAP_SUCCESS then Some (Inr (s2, r))
           else andThenP (Some (set_next s2 (Some (first c)) ?head))
                  (\<lambda>s3. Some (Inr (s3, MAP_SUCCESS))))"
      using cn gq lp by (simp add: copyList_def createNewList_def sz andThenP_def)
    have sbs: "set ?bs = {brk s1..<brk s1 + ?n}" by simp
    have dummy2: "cells s2 (brk s) = Some \<lparr>data = Val None, key = Val None, nxt = Val None\<rparr>"
      using u s1 by simp
    show ?thesis
    proof (cases lr)
      case (Inl e)
      with cl r show ?thesis by (simp add: andThenP_def)
    next
      case (Inr p)
      obtain s' lres where p: "p = (s', lres)" by (cases p) auto
      from lprop Inr p have bk: "brk s' = brk s2"
        and out: "\<And>a. a \<notin> set ?bs \<Longrightarrow> cells s' a = cells s2 a"
        and sf: "if lres = MAP_SUCCESS
         then (\<forall>a. next_at s' a = next_at s2 a) \<and>
              list_all2 (\<lambda>a b. is_copy mp s2 a s' b) as (take (length as) ?bs)
         else lres = MAP_OUT_OF_MEMORY \<and> cells s' = without s2 ([] @ ?bs)"
        by auto
      have low: "cells s' a = cells s a" if "a < brk s" for a
      proof -
        from that s1(2) have "a \<notin> set ?bs" unfolding sbs by auto
        then show ?thesis using out same[OF that] by simp
      qed
      have "brk s \<notin> set ?bs" unfolding sbs using s1(2) by auto
      then have dummy': "cells s' (brk s) = Some \<lparr>data = Val None, key = Val None, nxt = Val None\<rparr>"
        using out dummy2 by simp
      show ?thesis
      proof (cases "lres = MAP_SUCCESS")
        case False
        with cl r Inr p have e: "s3 = s'" "res = lres" by (simp_all add: andThenP_def)
        from sf False have "lres = MAP_OUT_OF_MEMORY" by simp
        with e low dummy' bk b show ?thesis by simp
      next
        case True
        let ?s3 = "s'\<lparr>cells := (cells s')(brk s \<mapsto>
            \<lparr>data = Val None, key = Val None, nxt = Val (Some top)\<rparr>)\<rparr>"
        have "copyList s1 (Some mp) (Some c) = Some (Inr (?s3, MAP_SUCCESS))"
          using cl Inr p True dummy' c by (simp add: andThenP_def set_next_def store_def)
        with r have e: "s3 = ?s3" "res = MAP_SUCCESS" by auto
        from sf True have nx': "\<And>a. next_at s' a = next_at s2 a"
          and l2: "list_all2 (\<lambda>a b. is_copy mp s2 a s' b) as ?bs"
          by auto
        have notb: "x \<noteq> brk s" if "x \<in> set ?bs" for x
          using that s1(2) unfolding sbs by auto
        have "chain ?s3 (Some top) ?bs"
          using ch
        proof (rule chain_frame)
          fix x assume "x \<in> set ?bs"
          from notb[OF this] have "next_at ?s3 x = next_at s' x" by (simp add: next_at_def)
          then show "next_at ?s3 x = next_at s2 x" using nx' by simp
        qed
        then have c1: "chain ?s3 (Some (first c)) (first c # ?bs)"
          using c by (simp add: next_at_def)
        have c2: "\<forall>x\<in>set ?bs. brk s < x \<and> x < brk ?s3"
          unfolding sbs using s1(2) bk b by auto
        have c3: "list_all2 (\<lambda>a b. is_copy mp s a ?s3 b) as ?bs"
          using l2
        proof (rule list.rel_mono_strong)
          fix x y assume x: "x \<in> set as" and y: "y \<in> set ?bs" and ic: "is_copy mp s2 x s' y"
          have "cells s2 x = cells s x" using same below x by simp
          then have kx: "key_at s2 x = key_at s x" "data_at s2 x = data_at s x"
            by (simp_all add: key_at_def data_at_def)
          have "cells ?s3 y = cells s' y" using notb[OF y] by simp
          then have ky: "key_at ?s3 y = key_at s' y" "data_at ?s3 y = data_at s' y"
            "filled ?s3 y = filled s' y"
            by (simp_all add: key_at_def data_at_def filled_def)
          from ic show "is_copy mp s x ?s3 y" unfolding is_copy_def kx ky .
        qed
        have c4: "\<forall>a<brk s. cells ?s3 a = cells s a" using low by simp
        have c5: "brk s1 \<le> brk ?s3" using bk b by simp
        have ex: "\<exists>bs. chain ?s3 (Some (first c)) (first c # bs) \<and>
             (\<forall>b\<in>set bs. brk s < b \<and> b < brk ?s3) \<and>
             list_all2 (\<lambda>a b. is_copy mp s a ?s3 b) as bs"
          by (rule exI[of _ ?bs]) (intro conjI c1 c2 c3)
        show ?thesis
          unfolding e(2) if_P[OF refl] unfolding e(1) by (intro conjI c4 c5 ex)
      qed
    qed
  qed
qed


text \<open>
  Every outcome of \<^verbatim>\<open>mapCopy\<close> on a well-formed map: nothing below the old end of the store
  is changed; a returned copy is a chain of fresh nodes holding copies, in order.
\<close>

lemma mapCopy_inv:
  assumes inv: "map_inv s mp as" and r: "mapCopy s (Some mp) = Some (Inr (s', mo', co))"
  shows "(\<forall>a<brk s. cells s' a = cells s a) \<and> brk s \<le> brk s' \<and>
     (case co of
        None \<Rightarrow> mo' = Some mp
      | Some c \<Rightarrow> mo' = Some (mp\<lparr>iterator := None\<rparr>) \<and> first c = brk s \<and> msize c = msize mp \<and>
          iterator c = None \<and> same_functions mp c \<and> brk s < brk s' \<and>
          (\<exists>bs. chain s' (Some (first c)) (first c # bs) \<and>
             (\<forall>b\<in>set bs. brk s < b \<and> b < brk s') \<and>
             list_all2 (\<lambda>a b. is_copy mp s a s' b) as bs))"
proof -
  from mapCreate_result[of s "copy_data mp" "copy_key mp" "free_data mp" "free_key mp"
      "compare_keys mp"]
  obtain s1 cr where cr: "mapCreate s (Some (copy_data mp)) (Some (copy_key mp))
      (Some (free_data mp)) (Some (free_key mp)) (Some (compare_keys mp)) = Inr (s1, cr)"
    and crn: "cr = None \<longrightarrow> cells s1 = cells s \<and> brk s1 = brk s"
    by blast
  show ?thesis
  proof (cases cr)
    case None
    with cr have "mapCopy s (Some mp) = Some (Inr (s1, Some mp, None))"
      by (simp add: mapCopy_def andThenP_def)
    with r crn None show ?thesis by auto
  next
    case (Some c0)
    note f = mapCreate_Some[OF cr[unfolded Some]]
    define c where "c = c0\<lparr>msize := msize mp\<rparr>"
    have cf: "first c = brk s" "msize c = msize mp" "same_functions mp c"
      using f by (simp_all add: c_def same_functions_def)
    from f have s1: "cells s1 = (cells s)(brk s \<mapsto> \<lparr>data = Val None, key = Val None, nxt = Val None\<rparr>)"
      "brk s1 = Suc (brk s)" by auto
    show ?thesis
    proof (cases "msize mp = 0")
      case True
      have "mapCopy s (Some mp) =
          Some (Inr (s1, Some (mp\<lparr>iterator := None\<rparr>), Some (c\<lparr>iterator := None\<rparr>)))"
        using cr Some True unfolding c_def mapCopy_def Let_def by (simp add: andThenP_def)
      with r have e: "s' = s1" "mo' = Some (mp\<lparr>iterator := None\<rparr>)"
        "co = Some (c\<lparr>iterator := None\<rparr>)" by auto
      from True map_inv_size[OF inv] have "as = []" by simp
      moreover have "chain s1 (Some (brk s)) [brk s]" by (simp add: next_at_def s1)
      ultimately show ?thesis
        unfolding e using s1 cf by (simp add: same_functions_def)
    next
      case False
      with map_inv_size[OF inv] have ne: "as \<noteq> []" by auto
      have mc: "mapCopy s (Some mp) =
         andThenP (copyList s1 (Some mp) (Some c)) (\<lambda>(s2, error_code).
            if error_code \<noteq> MAP_SUCCESS
            then andThenP (mapDestroy s2 (Some c)) (\<lambda>s3. Some (Inr (s3, Some mp, None)))
            else Some (Inr (s2, Some (mp\<lparr>iterator := None\<rparr>), Some (c\<lparr>iterator := None\<rparr>))))"
        using cr Some False unfolding c_def mapCopy_def Let_def by (simp add: andThenP_def)
      with r obtain s3 res where cl: "copyList s1 (Some mp) (Some c) = Some (Inr (s3, res))"
        by (auto simp: andThenP_def split: option.splits sum.splits)
      from copyList_inv[OF inv ne s1 cf(1) cl] have
        low: "\<forall>a<brk s. cells s3 a = cells s a" and bk: "brk s1 \<le> brk s3"
        and cs: "if res = MAP_SUCCESS
           then \<exists>bs. chain s3 (Some (first c)) (first c # bs) \<and>
             (\<forall>b\<in>set bs. brk s < b \<and> b < brk s3) \<and>
             list_all2 (\<lambda>a b. is_copy mp s a s3 b) as bs
           else res = MAP_OUT_OF_MEMORY \<and>
             cells s3 (brk s) = Some \<lparr>data = Val None, key = Val None, nxt = Val None\<rparr>"
        by auto
      show ?thesis
      proof (cases "res = MAP_SUCCESS")
        case True
        with mc cl r have e: "s' = s3" "mo' = Some (mp\<lparr>iterator := None\<rparr>)"
          "co = Some (c\<lparr>iterator := None\<rparr>)"
          by (auto simp: andThenP_def)
        from cs True obtain bs where "chain s3 (Some (first c)) (first c # bs)"
          "\<forall>b\<in>set bs. brk s < b \<and> b < brk s3" "list_all2 (\<lambda>a b. is_copy mp s a s3 b) as bs"
          by auto
        then have "\<exists>bs. chain s3 (Some (first (c\<lparr>iterator := None\<rparr>)))
              (first (c\<lparr>iterator := None\<rparr>) # bs) \<and>
            (\<forall>b\<in>set bs. brk s < b \<and> b < brk s3) \<and>
            list_all2 (\<lambda>a b. is_copy mp s a s3 b) as bs"
          by (intro exI[of _ bs]) simp
        then show ?thesis
          unfolding e using low bk s1(2) cf by (simp add: same_functions_def)
      next
        case False
        with cs have d: "cells s3 (brk s) = Some \<lparr>data = Val None, key = Val None, nxt = Val None\<rparr>"
          by simp
        have "chain s3 (Some (first c)) (first c # [])"
          using d cf(1) by (simp add: next_at_def)
        from mapDestroy_chain[OF this] obtain s4 where
          md: "mapDestroy s3 (Some c) = Some (Inr s4)"
          and c4: "cells s4 = without s3 [first c]" "brk s4 = brk s3"
          by auto
        from mc cl False md r have e: "s' = s4" "mo' = Some mp" "co = None"
          by (auto simp: andThenP_def)
        show ?thesis
          unfolding e using low bk s1(2) c4 cf(1) by (simp add: without_def)
      qed
    qed
  qed
qed


subsection \<open>The copy is a well-formed map of its own\<close>

lemma is_copy_key:
  assumes l: "lawful (compare_keys mp) (copy_key mp)" and c: "is_copy mp s a s' b"
    and ka: "key_at s a = Some ka"
  shows "\<exists>kb. key_at s' b = Some kb \<and> compare_keys mp (Some ka) (Some kb) = 0"
proof -
  from c have "filled s' b" by (simp add: is_copy_def)
  then obtain kb where kb: "key_at s' b = Some kb" using filled_key_at by blast
  from c obtain w where "key_at s' b = fst (copy_key mp (key_at s a) w)"
    by (auto simp: is_copy_def)
  with ka kb have "copy_key mp (Some ka) w = (Some kb, snd (copy_key mp (Some ka) w))"
    by (metis prod.collapse)
  from lawful_copy[OF l this] kb show ?thesis by simp
qed

lemma copy_sorted:
  assumes l: "lawful (compare_keys mp) (copy_key mp)" and inv: "map_inv s mp as"
    and c: "list_all2 (\<lambda>a b. is_copy mp s a s' b) as bs"
    and cmp: "compare_keys c = compare_keys mp"
  shows "sorted_wrt (before c s') bs"
  unfolding sorted_wrt_iff_nth_less
proof (intro allI impI)
  fix i j assume ij: "i < j" "j < length bs"
  have len: "length as = length bs" using c by (rule list_all2_lengthD)
  with ij have i: "i < length as" and j: "j < length as" by auto
  from c i have ci: "is_copy mp s (as ! i) s' (bs ! i)" by (rule list_all2_nthD)
  from c j have cj: "is_copy mp s (as ! j) s' (bs ! j)" by (rule list_all2_nthD)
  from map_inv_key[OF inv, of "as ! i"] i obtain ki where ki: "key_at s (as ! i) = Some ki" by auto
  from map_inv_key[OF inv, of "as ! j"] j obtain kj where kj: "key_at s (as ! j) = Some kj" by auto
  from is_copy_key[OF l ci ki] obtain ki' where ki': "key_at s' (bs ! i) = Some ki'"
    "compare_keys mp (Some ki) (Some ki') = 0" by blast
  from is_copy_key[OF l cj kj] obtain kj' where kj': "key_at s' (bs ! j) = Some kj'"
    "compare_keys mp (Some kj) (Some kj') = 0" by blast
  have "before mp s (as ! i) (as ! j)"
    using map_inv_sorted[OF inv] ij(1) j by (simp add: sorted_wrt_iff_nth_less)
  then have "compare_keys mp (Some ki) (Some kj) < 0" by (simp add: before_def ki kj)
  moreover have "compare_keys mp (Some ki') (Some ki) \<le> 0"
    using ki'(2) lawful_zero[OF l, of ki ki'] by simp
  ultimately have "compare_keys mp (Some ki') (Some kj) < 0" by (rule lawful_le_less[OF l, rotated])
  moreover have "compare_keys mp (Some kj) (Some kj') \<le> 0" using kj'(2) by simp
  ultimately have "compare_keys mp (Some ki') (Some kj') < 0" by (rule lawful_less_le[OF l])
  then show "before c s' (bs ! i) (bs ! j)" by (simp add: before_def ki' kj' cmp)
qed

lemma copy_map_inv:
  assumes l: "lawful (compare_keys mp) (copy_key mp)" and inv: "map_inv s mp as"
    and ch: "chain s' (Some (first c)) (first c # bs)"
    and fresh: "\<forall>b\<in>set bs. brk s < b \<and> b < brk s'"
    and c: "list_all2 (\<lambda>a b. is_copy mp s a s' b) as bs"
    and cf: "first c = brk s" "msize c = msize mp" "same_functions mp c" "brk s < brk s'"
  shows "map_inv s' c bs"
proof -
  have "list_all (filled s') bs"
    unfolding list_all_iff
  proof
    fix b assume "b \<in> set bs"
    then obtain i where i: "i < length bs" "bs ! i = b" by (auto simp: in_set_conv_nth)
    with c have "is_copy mp s (as ! i) s' b" by (auto dest: list_all2_nthD2)
    then show "filled s' b" by (simp add: is_copy_def)
  qed
  moreover have "sorted_wrt (before c s') bs"
    using l inv c by (rule copy_sorted) (use cf(3) in \<open>simp add: same_functions_def\<close>)
  moreover have "msize c = int (length bs)"
    using map_inv_size[OF inv] cf(2) list_all2_lengthD[OF c] by simp
  moreover have "list_all (\<lambda>a. a < brk s') (first c # bs)"
    using fresh cf by (simp add: list_all_iff)
  ultimately show ?thesis using ch by (simp add: map_inv_def)
qed

subsection \<open>Calls on one map leave another map alone\<close>

lemma entries_cong:
  "(\<And>a. a \<in> set as \<Longrightarrow> cells s' a = cells s a) \<Longrightarrow> entries s' as = entries s as"
  by (simp add: entries_def key_at_def data_at_def)

lemma untouched_frame:
  assumes u: "untouched s fp s'" and inv2: "map_inv s m2 bs"
    and dj: "set fp \<inter> set (first m2 # bs) = {}"
  shows "map_inv s' m2 bs \<and> entries s' bs = entries s bs"
proof -
  have same: "cells s' b = cells s b" if "b \<in> set (first m2 # bs)" for b
  proof -
    from that have "b < brk s" using inv2 by (rule map_inv_below[rotated])
    moreover from that dj have "b \<notin> set fp" by auto
    ultimately show ?thesis using u by (simp add: untouched_def)
  qed
  have "map_inv s' m2 bs"
    using inv2 by (rule map_inv_frame) (use same u in \<open>auto simp: untouched_def\<close>)
  moreover have "entries s' bs = entries s bs" by (rule entries_cong) (use same in auto)
  ultimately show ?thesis ..
qed

lemma evolves_frame:
  assumes ev: "evolves s m as s' m' as'" and inv2: "map_inv s m2 bs"
    and dj: "set (first m # as) \<inter> set (first m2 # bs) = {}"
  shows "map_inv s' m2 bs \<and> entries s' bs = entries s bs \<and>
     set (first m' # as') \<inter> set (first m2 # bs) = {}"
proof -
  from ev have u: "untouched s (first m # as) s'" and f: "first m' = first m"
    and n: "\<forall>a\<in>set as'. a \<in> set as \<or> brk s \<le> a"
    by (simp_all add: evolves_def)
  have "\<forall>b\<in>set (first m2 # bs). b < brk s" using map_inv_below[OF inv2] by blast
  with n dj f have "set (first m' # as') \<inter> set (first m2 # bs) = {}" by fastforce
  with untouched_frame[OF u inv2 dj] show ?thesis by simp
qed


lemma mapCopy_success:
  assumes inv: "map_inv s mp as" and l: "lawful (compare_keys mp) (copy_key mp)"
    and r: "mapCopy s (Some mp) = Some (Inr (s', mo', Some c))"
  shows "\<exists>bs. mo' = Some (mp\<lparr>iterator := None\<rparr>) \<and> map_inv s' (mp\<lparr>iterator := None\<rparr>) as \<and>
     map_inv s' c bs \<and> same_functions mp c \<and> msize c = msize mp \<and> iterator c = None \<and>
     entries s' as = entries s as \<and> list_all2 (\<lambda>a b. is_copy mp s a s' b) as bs \<and>
     set (first mp # as) \<inter> set (first c # bs) = {} \<and> untouched s [] s' \<and>
     (\<forall>b\<in>set (first c # bs). brk s \<le> b)"
proof -
  from mapCopy_inv[OF inv r] obtain bs where
    low: "\<forall>a<brk s. cells s' a = cells s a" and bk: "brk s \<le> brk s'"
    and mo: "mo' = Some (mp\<lparr>iterator := None\<rparr>)"
    and cf: "first c = brk s" "msize c = msize mp" "same_functions mp c" "brk s < brk s'"
    and it: "iterator c = None"
    and ch: "chain s' (Some (first c)) (first c # bs)"
    and fresh: "\<forall>b\<in>set bs. brk s < b \<and> b < brk s'"
    and cp: "list_all2 (\<lambda>a b. is_copy mp s a s' b) as bs"
    by auto
  have below: "\<And>a. a \<in> set (first mp # as) \<Longrightarrow> a < brk s" using inv by (rule map_inv_below)
  have i1: "map_inv s' (mp\<lparr>iterator := None\<rparr>) as"
    using inv by (rule map_inv_frame) (use low below bk in auto)
  have i2: "map_inv s' c bs" using l inv ch fresh cp cf by (rule copy_map_inv)
  have e: "entries s' as = entries s as"
    by (rule entries_cong) (use low below in auto)
  have dj: "set (first mp # as) \<inter> set (first c # bs) = {}"
    using below fresh cf(1) by fastforce
  have u: "untouched s [] s'" using low bk by (simp add: untouched_def)
  have f: "\<forall>b\<in>set (first c # bs). brk s \<le> b" using fresh cf(1) by auto
  from mo i1 i2 cf it e cp dj u f show ?thesis by blast
qed

text \<open>
  Claim C7. When \<^verbatim>\<open>mapCopy\<close> on a well-formed map returns a map, the copy has the size of
  the source (the size is assigned, the nodes are not counted), the source still has
  its nodes with the same keys and data, and the copy has as many nodes, each holding
  a key that compares equal to the source's key at that position and a data that
  \<^verbatim>\<open>copy_data\<close> returned for the source's data. The two maps share no node, and a
  \<^verbatim>\<open>mapPut\<close> or \<^verbatim>\<open>mapRemove\<close> on either of them leaves the other one well formed with the
  same keys and data, and still disjoint from the changed map.
\<close>

theorem mapCopy_gives_independent_map:
  assumes inv: "map_inv s mp as" and l: "lawful (compare_keys mp) (copy_key mp)"
    and r: "mapCopy s (Some mp) = Some (Inr (s', Some mp', Some c))"
  shows "mapGetSize (Some c) = mapGetSize (Some mp) \<and>
     (\<exists>bs. map_inv s' mp' as \<and> map_inv s' c bs \<and> entries s' as = entries s as \<and>
        list_all2 (\<lambda>a b. compare_keys mp (key_at s a) (key_at s' b) = 0 \<and>
                         (\<exists>w. data_at s' b = fst (copy_data mp (data_at s a) w))) as bs \<and>
        set (first mp' # as) \<inter> set (first c # bs) = {} \<and>
        (\<forall>ko dopt s2 mo2 res.
           mapPut s' (Some c) ko dopt = Some (Inr (s2, mo2, res)) \<or>
           mapRemove s' (Some c) ko = Some (Inr (s2, mo2, res)) \<longrightarrow>
           map_inv s2 mp' as \<and> entries s2 as = entries s' as \<and>
           (\<exists>c2 bs2. mo2 = Some c2 \<and> map_inv s2 c2 bs2 \<and>
              set (first mp' # as) \<inter> set (first c2 # bs2) = {})) \<and>
        (\<forall>ko dopt s2 mo2 res.
           mapPut s' (Some mp') ko dopt = Some (Inr (s2, mo2, res)) \<or>
           mapRemove s' (Some mp') ko = Some (Inr (s2, mo2, res)) \<longrightarrow>
           map_inv s2 c bs \<and> entries s2 bs = entries s' bs \<and>
           (\<exists>mp2 as2. mo2 = Some mp2 \<and> map_inv s2 mp2 as2 \<and>
              set (first mp2 # as2) \<inter> set (first c # bs) = {})))"
proof -
  from mapCopy_success[OF inv l r] obtain bs where
    mo: "mp' = mp\<lparr>iterator := None\<rparr>" and i1: "map_inv s' mp' as" and i2: "map_inv s' c bs"
    and sf: "same_functions mp c" and sz: "msize c = msize mp"
    and e: "entries s' as = entries s as" and cp: "list_all2 (\<lambda>a b. is_copy mp s a s' b) as bs"
    and dj: "set (first mp' # as) \<inter> set (first c # bs) = {}"
    by auto
  have l1: "lawful (compare_keys mp') (copy_key mp')" using l mo by simp
  have l2: "lawful (compare_keys c) (copy_key c)" using l sf by (simp add: same_functions_def)
  have dj': "set (first c # bs) \<inter> set (first mp' # as) = {}" using dj by blast
  have rel: "list_all2 (\<lambda>a b. compare_keys mp (key_at s a) (key_at s' b) = 0 \<and>
                         (\<exists>w. data_at s' b = fst (copy_data mp (data_at s a) w))) as bs"
    using cp
  proof (rule list.rel_mono_strong)
    fix a b assume a: "a \<in> set as" and c: "is_copy mp s a s' b"
    from map_inv_key[OF inv a] obtain ka where ka: "key_at s a = Some ka" by blast
    from is_copy_key[OF l c ka] ka c
    show "compare_keys mp (key_at s a) (key_at s' b) = 0 \<and>
        (\<exists>w. data_at s' b = fst (copy_data mp (data_at s a) w))"
      by (auto simp: is_copy_def)
  qed
  have on_copy: "map_inv s2 mp' as \<and> entries s2 as = entries s' as \<and>
      (\<exists>c2 bs2. mo2 = Some c2 \<and> map_inv s2 c2 bs2 \<and>
         set (first mp' # as) \<inter> set (first c2 # bs2) = {})"
    if "mapPut s' (Some c) ko dopt = Some (Inr (s2, mo2, res)) \<or>
        mapRemove s' (Some c) ko = Some (Inr (s2, mo2, res))" for ko dopt s2 mo2 res
  proof -
    from that mapPut_evolves[OF i2 l2] mapRemove_evolves[OF i2 l2]
    obtain c2 bs2 where m: "mo2 = Some c2" and ev: "evolves s' c bs s2 c2 bs2" by blast
    from evolves_frame[OF ev i1 dj'] have "map_inv s2 mp' as" "entries s2 as = entries s' as"
      "set (first c2 # bs2) \<inter> set (first mp' # as) = {}" by auto
    moreover from ev have "map_inv s2 c2 bs2" by (simp add: evolves_def)
    ultimately show ?thesis using m by blast
  qed
  have on_source: "map_inv s2 c bs \<and> entries s2 bs = entries s' bs \<and>
      (\<exists>mp2 as2. mo2 = Some mp2 \<and> map_inv s2 mp2 as2 \<and>
         set (first mp2 # as2) \<inter> set (first c # bs) = {})"
    if "mapPut s' (Some mp') ko dopt = Some (Inr (s2, mo2, res)) \<or>
        mapRemove s' (Some mp') ko = Some (Inr (s2, mo2, res))" for ko dopt s2 mo2 res
  proof -
    from that mapPut_evolves[OF i1 l1] mapRemove_evolves[OF i1 l1]
    obtain mp2 as2 where m: "mo2 = Some mp2" and ev: "evolves s' mp' as s2 mp2 as2" by blast
    from evolves_frame[OF ev i2 dj] have "map_inv s2 c bs" "entries s2 bs = entries s' bs"
      "set (first mp2 # as2) \<inter> set (first c # bs) = {}" by auto
    moreover from ev have "map_inv s2 mp2 as2" by (simp add: evolves_def)
    ultimately show ?thesis using m by blast
  qed
  have A: "\<forall>ko dopt s2 mo2 res.
           mapPut s' (Some c) ko dopt = Some (Inr (s2, mo2, res)) \<or>
           mapRemove s' (Some c) ko = Some (Inr (s2, mo2, res)) \<longrightarrow>
           map_inv s2 mp' as \<and> entries s2 as = entries s' as \<and>
           (\<exists>c2 bs2. mo2 = Some c2 \<and> map_inv s2 c2 bs2 \<and>
              set (first mp' # as) \<inter> set (first c2 # bs2) = {})"
    by (intro allI impI) (erule on_copy)
  have B: "\<forall>ko dopt s2 mo2 res.
           mapPut s' (Some mp') ko dopt = Some (Inr (s2, mo2, res)) \<or>
           mapRemove s' (Some mp') ko = Some (Inr (s2, mo2, res)) \<longrightarrow>
           map_inv s2 c bs \<and> entries s2 bs = entries s' bs \<and>
           (\<exists>mp2 as2. mo2 = Some mp2 \<and> map_inv s2 mp2 as2 \<and>
              set (first mp2 # as2) \<inter> set (first c # bs) = {})"
    by (intro allI impI) (erule on_source)
  have "mapGetSize (Some c) = mapGetSize (Some mp)" using sz by (simp add: mapGetSize_def)
  moreover have "\<exists>bs. map_inv s' mp' as \<and> map_inv s' c bs \<and> entries s' as = entries s as \<and>
        list_all2 (\<lambda>a b. compare_keys mp (key_at s a) (key_at s' b) = 0 \<and>
                         (\<exists>w. data_at s' b = fst (copy_data mp (data_at s a) w))) as bs \<and>
        set (first mp' # as) \<inter> set (first c # bs) = {} \<and>
        (\<forall>ko dopt s2 mo2 res.
           mapPut s' (Some c) ko dopt = Some (Inr (s2, mo2, res)) \<or>
           mapRemove s' (Some c) ko = Some (Inr (s2, mo2, res)) \<longrightarrow>
           map_inv s2 mp' as \<and> entries s2 as = entries s' as \<and>
           (\<exists>c2 bs2. mo2 = Some c2 \<and> map_inv s2 c2 bs2 \<and>
              set (first mp' # as) \<inter> set (first c2 # bs2) = {})) \<and>
        (\<forall>ko dopt s2 mo2 res.
           mapPut s' (Some mp') ko dopt = Some (Inr (s2, mo2, res)) \<or>
           mapRemove s' (Some mp') ko = Some (Inr (s2, mo2, res)) \<longrightarrow>
           map_inv s2 c bs \<and> entries s2 bs = entries s' bs \<and>
           (\<exists>mp2 as2. mo2 = Some mp2 \<and> map_inv s2 mp2 as2 \<and>
              set (first mp2 # as2) \<inter> set (first c # bs) = {}))"
    apply (rule exI[of _ bs])
    apply (intro conjI i1 i2 e rel dj A B)
    done
  ultimately show ?thesis ..
qed

lemmas copy_defs = mapCopy_def copyList_def copyList_body_def copyList_loop.simps
  createNewList_def createNewList_loop.simps mapDestroy_def clear_defs

theorem mapCopy_gives_independent_map_witness:
  "\<exists>s' mp' c. mapCopy demo_mem (Some demo_map) = Some (Inr (s', Some mp', Some c)) \<and>
     mapGetSize (Some c) = 2 \<and>
     (\<exists>bs. map_inv s' mp' [1, 2] \<and> map_inv s' c bs \<and>
        entries s' [1, 2] = [(Some 1, Some 10), (Some 3, Some 30)] \<and>
        set (first mp' # [1, 2]) \<inter> set (first c # bs) = {}) \<and>
     (\<exists>s2 c2. mapPut s' (Some c) (Some 2) (Some 20) = Some (Inr (s2, Some c2, MAP_SUCCESS)) \<and>
        mapGetSize (Some c2) = 3 \<and> map_inv s2 mp' [1, 2] \<and>
        entries s2 [1, 2] = [(Some 1, Some 10), (Some 3, Some 30)])"
proof -
  have "\<exists>s' mp' c. mapCopy demo_mem (Some demo_map) = Some (Inr (s', Some mp', Some c)) \<and>
     (\<exists>s2 c2. mapPut s' (Some c) (Some 2) (Some 20) = Some (Inr (s2, Some c2, MAP_SUCCESS)) \<and>
        mapGetSize (Some c2) = 3)"
    by (simp add: copy_defs run_defs demo_mem_def demo_map_def)
  then obtain s' mp' c s2 c2 where
    r: "mapCopy demo_mem (Some demo_map) = Some (Inr (s', Some mp', Some c))"
    and p: "mapPut s' (Some c) (Some 2) (Some 20) = Some (Inr (s2, Some c2, MAP_SUCCESS))"
    and sz2: "mapGetSize (Some c2) = 3" by blast
  have e: "entries demo_mem [1, 2] = [(Some 1, Some 10), (Some 3, Some 30)]"
    by (simp add: entries_def demo_mem_def key_at_def data_at_def)
  have sz: "mapGetSize (Some demo_map) = 2" by (simp add: mapGetSize_def demo_map_def)
  from mapCopy_gives_independent_map[OF demo_inv demo_lawful r] obtain bs where
    a: "mapGetSize (Some c) = mapGetSize (Some demo_map)"
    and b: "map_inv s' mp' [1, 2]" "map_inv s' c bs" "entries s' [1, 2] = entries demo_mem [1, 2]"
      "set (first mp' # [1, 2]) \<inter> set (first c # bs) = {}"
    and f: "\<forall>ko dopt s2 mo2 res.
           mapPut s' (Some c) ko dopt = Some (Inr (s2, mo2, res)) \<or>
           mapRemove s' (Some c) ko = Some (Inr (s2, mo2, res)) \<longrightarrow>
           map_inv s2 mp' [1, 2] \<and> entries s2 [1, 2] = entries s' [1, 2] \<and>
           (\<exists>c2 bs2. mo2 = Some c2 \<and> map_inv s2 c2 bs2 \<and>
              set (first mp' # [1, 2]) \<inter> set (first c2 # bs2) = {})"
    by blast
  from f p have g: "map_inv s2 mp' [1, 2]" "entries s2 [1, 2] = entries s' [1, 2]" by blast+
  from r p sz2 a b g e sz show ?thesis by (metis (no_types))
qed

text \<open>
  Claim C8, at a failing input. The source holds the keys 1 and 3, and the client's
  allocation for the copy of the first data fails. \<^verbatim>\<open>copyList\<close> then calls \<^verbatim>\<open>freeList\<close> on
  the whole new list, whose second node has never been assigned a key or a data:
  \<^verbatim>\<open>freeNode\<close> reads these indeterminate pointers and passes them to the free functions.
  \<^verbatim>\<open>mapCopy\<close> does not return \<^verbatim>\<open>NULL\<close> here; the call is undefined. When the failure is at
  the last node (second line) the list is released and \<^verbatim>\<open>NULL\<close> is returned.
\<close>

theorem mapCopy_failed_copy_frees_unassigned_nodes:
  "replies (start [] [True, True, True, True, False])
     [createInts, Put (Some 0) (Some 1) (Some 10), Put (Some 0) (Some 3) (Some 30),
      Copy (Some 0)]
   = Some (Inl IndeterminateRead) \<and>
   replies (start [] [True, True, True, True, True, True, False])
     [createInts, Put (Some 0) (Some 1) (Some 10), Put (Some 0) (Some 3) (Some 30),
      Copy (Some 0), GetSize (Some 0)]
   = Some (Inr [Handle (Some 0), Code MAP_SUCCESS, Code MAP_SUCCESS, Handle None, Count 2])"
  by (simp add: copy_defs run_defs)


section \<open>Every reachable state is well formed\<close>

lemma map_inv_unique:
  assumes "map_inv s m as" "map_inv s m bs"
  shows "as = bs"
proof -
  have "chain s (Some (first m)) (first m # as)" using assms(1) by (rule map_inv_chain)
  moreover have "chain s (Some (first m)) (first m # bs)" using assms(2) by (rule map_inv_chain)
  ultimately have "first m # as = first m # bs" by (rule chain_unique)
  then show ?thesis by simp
qed

lemma well_formedD1:
  "well_formed \<sigma> \<Longrightarrow> i < length (maps \<sigma>) \<Longrightarrow> maps \<sigma> ! i = Some m \<Longrightarrow>
   lawful (compare_keys m) (copy_key m) \<and> (\<exists>as. map_inv (mem \<sigma>) m as)"
  unfolding well_formed_def by blast

lemma well_formedD2:
  "well_formed \<sigma> \<Longrightarrow> i < length (maps \<sigma>) \<Longrightarrow> j < length (maps \<sigma>) \<Longrightarrow> i \<noteq> j \<Longrightarrow>
   maps \<sigma> ! i = Some m \<Longrightarrow> maps \<sigma> ! j = Some m2 \<Longrightarrow>
   map_inv (mem \<sigma>) m as \<Longrightarrow> map_inv (mem \<sigma>) m2 bs \<Longrightarrow>
   set (first m # as) \<inter> set (first m2 # bs) = {}"
  unfolding well_formed_def by blast

lemma well_formedI:
  assumes "\<And>i m. i < length (maps \<sigma>) \<Longrightarrow> maps \<sigma> ! i = Some m \<Longrightarrow>
             lawful (compare_keys m) (copy_key m) \<and> (\<exists>as. map_inv (mem \<sigma>) m as)"
    and "\<And>i j m m2 as bs. i < length (maps \<sigma>) \<Longrightarrow> j < length (maps \<sigma>) \<Longrightarrow> i < j \<Longrightarrow>
             maps \<sigma> ! i = Some m \<Longrightarrow> maps \<sigma> ! j = Some m2 \<Longrightarrow>
             map_inv (mem \<sigma>) m as \<Longrightarrow> map_inv (mem \<sigma>) m2 bs \<Longrightarrow>
             set (first m # as) \<inter> set (first m2 # bs) = {}"
  shows "well_formed \<sigma>"
  unfolding well_formed_def
proof (intro conjI allI impI)
  fix i m assume "i < length (maps \<sigma>)" "maps \<sigma> ! i = Some m"
  from assms(1)[OF this] show "lawful (compare_keys m) (copy_key m)"
    and "\<exists>as. map_inv (mem \<sigma>) m as" by blast+
next
  fix i j m m2 as bs
  assume h: "i < length (maps \<sigma>)" "j < length (maps \<sigma>)" "i \<noteq> j" "maps \<sigma> ! i = Some m"
    "maps \<sigma> ! j = Some m2" "map_inv (mem \<sigma>) m as" "map_inv (mem \<sigma>) m2 bs"
  show "set (first m # as) \<inter> set (first m2 # bs) = {}"
  proof (cases "i < j")
    case True
    with h show ?thesis by (intro assms(2)[of i j m m2 as bs])
  next
    case False
    with h have "j < i" by simp
    with h have "set (first m2 # bs) \<inter> set (first m # as) = {}"
      by (intro assms(2)[of j i m2 m bs as])
    then show ?thesis by blast
  qed
qed

lemma well_formed_start: "well_formed (start ms w)"
  by (simp add: well_formed_def start_def)

text \<open>One map changes within its own nodes and fresh ones.\<close>

lemma well_formed_evolves:
  assumes wf: "well_formed \<sigma>" and i: "i < length (maps \<sigma>)" and m: "maps \<sigma> ! i = Some m"
    and inv: "map_inv (mem \<sigma>) m as" and ev: "evolves (mem \<sigma>) m as s' m' as'"
  shows "well_formed (\<sigma>\<lparr>mem := s', maps := (maps \<sigma>)[i := Some m']\<rparr>)"
proof -
  let ?\<sigma> = "\<sigma>\<lparr>mem := s', maps := (maps \<sigma>)[i := Some m']\<rparr>"
  have inv': "map_inv s' m' as'" and sf: "same_functions m m'"
    using ev by (simp_all add: evolves_def)
  have other: "\<exists>bs. map_inv (mem \<sigma>) x bs \<and> map_inv s' x bs \<and>
      set (first m' # as') \<inter> set (first x # bs) = {} \<and> lawful (compare_keys x) (copy_key x)"
    if j: "j < length (maps \<sigma>)" "j \<noteq> i" and x: "maps \<sigma> ! j = Some x" for j x
  proof -
    from well_formedD1[OF wf j(1) x] obtain bs where l: "lawful (compare_keys x) (copy_key x)"
      and b: "map_inv (mem \<sigma>) x bs" by blast
    from well_formedD2[OF wf i j(1) _ m x inv b] j(2)
    have dj: "set (first m # as) \<inter> set (first x # bs) = {}" by blast
    from evolves_frame[OF ev b dj] b l show ?thesis by blast
  qed
  show ?thesis
  proof (rule well_formedI)
    fix j x assume j: "j < length (maps ?\<sigma>)" and x: "maps ?\<sigma> ! j = Some x"
    show "lawful (compare_keys x) (copy_key x) \<and> (\<exists>as. map_inv (mem ?\<sigma>) x as)"
    proof (cases "j = i")
      case True
      with x i have "x = m'" by simp
      moreover from well_formedD1[OF wf i m] sf
      have "lawful (compare_keys m') (copy_key m')" by (simp add: same_functions_def)
      ultimately show ?thesis using inv' by auto
    next
      case False
      with j x have "j < length (maps \<sigma>)" "maps \<sigma> ! j = Some x" by simp_all
      from other[OF this(1) False this(2)] show ?thesis by auto
    qed
  next
    fix j k x y xs ys
    assume j: "j < length (maps ?\<sigma>)" and k: "k < length (maps ?\<sigma>)" and jk: "j < k"
      and x: "maps ?\<sigma> ! j = Some x" and y: "maps ?\<sigma> ! k = Some y"
      and ix: "map_inv (mem ?\<sigma>) x xs" and iy: "map_inv (mem ?\<sigma>) y ys"
    have ix': "map_inv s' x xs" and iy': "map_inv s' y ys" using ix iy by simp_all
    have jl: "j < length (maps \<sigma>)" and kl: "k < length (maps \<sigma>)" using j k by simp_all
    show "set (first x # xs) \<inter> set (first y # ys) = {}"
    proof (cases "j = i")
      case True
      with x i have xm: "x = m'" by simp
      with ix' inv' have xs: "xs = as'" by (auto dest: map_inv_unique)
      from True jk have ki: "k \<noteq> i" by simp
      with y have "maps \<sigma> ! k = Some y" by simp
      from other[OF kl ki this] obtain bs where "map_inv s' y bs"
        "set (first m' # as') \<inter> set (first y # bs) = {}" by blast
      with iy' xm xs show ?thesis by (auto dest: map_inv_unique)
    next
      case ji: False
      with x have xo: "maps \<sigma> ! j = Some x" by simp
      from other[OF jl ji xo] obtain bs where b: "map_inv (mem \<sigma>) x bs" "map_inv s' x bs"
        "set (first m' # as') \<inter> set (first x # bs) = {}" by blast
      with ix' have xs: "xs = bs" by (auto dest: map_inv_unique)
      show ?thesis
      proof (cases "k = i")
        case True
        with y i have ym: "y = m'" by simp
        with iy' inv' have "ys = as'" by (auto dest: map_inv_unique)
        with b(3) xs ym show ?thesis by blast
      next
        case ki: False
        with y have yo: "maps \<sigma> ! k = Some y" by simp
        from other[OF kl ki yo] obtain cs where c: "map_inv (mem \<sigma>) y cs" "map_inv s' y cs"
          by blast
        with iy' have ys: "ys = cs" by (auto dest: map_inv_unique)
        from well_formedD2[OF wf jl kl _ xo yo b(1) c(1)] jk xs ys show ?thesis by simp
      qed
    qed
  qed
qed

text \<open>The store grows, and possibly a new map with fresh nodes gets a handle.\<close>

lemma well_formed_grows:
  assumes wf: "well_formed \<sigma>" and u: "untouched (mem \<sigma>) [] s'"
  shows "well_formed (\<sigma>\<lparr>mem := s'\<rparr>)"
proof -
  have keep: "\<exists>bs. map_inv (mem \<sigma>) x bs \<and> map_inv s' x bs"
    if "j < length (maps \<sigma>)" "maps \<sigma> ! j = Some x" for j x
  proof -
    from well_formedD1[OF wf that] obtain bs where b: "map_inv (mem \<sigma>) x bs" by blast
    from untouched_frame[OF u b] b show ?thesis by auto
  qed
  show ?thesis
  proof (rule well_formedI)
    fix j x assume "j < length (maps (\<sigma>\<lparr>mem := s'\<rparr>))" "maps (\<sigma>\<lparr>mem := s'\<rparr>) ! j = Some x"
    then have a: "j < length (maps \<sigma>)" "maps \<sigma> ! j = Some x" by simp_all
    from well_formedD1[OF wf a] keep[OF a]
    show "lawful (compare_keys x) (copy_key x) \<and> (\<exists>as. map_inv (mem (\<sigma>\<lparr>mem := s'\<rparr>)) x as)"
      by auto
  next
    fix j k x y xs ys
    assume "j < length (maps (\<sigma>\<lparr>mem := s'\<rparr>))" "k < length (maps (\<sigma>\<lparr>mem := s'\<rparr>))" and jk: "j < k"
      and "maps (\<sigma>\<lparr>mem := s'\<rparr>) ! j = Some x" "maps (\<sigma>\<lparr>mem := s'\<rparr>) ! k = Some y"
      and "map_inv (mem (\<sigma>\<lparr>mem := s'\<rparr>)) x xs" "map_inv (mem (\<sigma>\<lparr>mem := s'\<rparr>)) y ys"
    then have a: "j < length (maps \<sigma>)" "maps \<sigma> ! j = Some x"
      and b: "k < length (maps \<sigma>)" "maps \<sigma> ! k = Some y"
      and ix: "map_inv s' x xs" and iy: "map_inv s' y ys" by simp_all
    from keep[OF a] ix obtain "map_inv (mem \<sigma>) x xs" by (auto dest: map_inv_unique)
    moreover from keep[OF b] iy obtain "map_inv (mem \<sigma>) y ys" by (auto dest: map_inv_unique)
    ultimately show "set (first x # xs) \<inter> set (first y # ys) = {}"
      using well_formedD2[OF wf a(1) b(1) _ a(2) b(2)] jk by simp
  qed
qed

lemma well_formed_new_handle:
  assumes wf: "well_formed \<sigma>" and inv: "map_inv (mem \<sigma>) c bs"
    and l: "lawful (compare_keys c) (copy_key c)"
    and dj: "\<And>j x xs. j < length (maps \<sigma>) \<Longrightarrow> maps \<sigma> ! j = Some x \<Longrightarrow> map_inv (mem \<sigma>) x xs \<Longrightarrow>
               set (first x # xs) \<inter> set (first c # bs) = {}"
  shows "well_formed (\<sigma>\<lparr>maps := maps \<sigma> @ [Some c]\<rparr>)"
proof (rule well_formedI)
  let ?\<sigma> = "\<sigma>\<lparr>maps := maps \<sigma> @ [Some c]\<rparr>"
  fix j x assume j: "j < length (maps ?\<sigma>)" and x: "maps ?\<sigma> ! j = Some x"
  show "lawful (compare_keys x) (copy_key x) \<and> (\<exists>as. map_inv (mem ?\<sigma>) x as)"
  proof (cases "j < length (maps \<sigma>)")
    case True
    with x have "maps \<sigma> ! j = Some x" by (simp add: nth_append)
    from well_formedD1[OF wf True this] show ?thesis by simp
  next
    case False
    with j have "j = length (maps \<sigma>)" by simp
    with x have "x = c" by simp
    with inv l show ?thesis by auto
  qed
next
  let ?\<sigma> = "\<sigma>\<lparr>maps := maps \<sigma> @ [Some c]\<rparr>"
  fix j k x y xs ys
  assume j: "j < length (maps ?\<sigma>)" and k: "k < length (maps ?\<sigma>)" and jk: "j < k"
    and x: "maps ?\<sigma> ! j = Some x" and y: "maps ?\<sigma> ! k = Some y"
    and ix: "map_inv (mem ?\<sigma>) x xs" and iy: "map_inv (mem ?\<sigma>) y ys"
  from jk k have jl: "j < length (maps \<sigma>)" by simp
  with x have xo: "maps \<sigma> ! j = Some x" by (simp add: nth_append)
  from ix iy have ix': "map_inv (mem \<sigma>) x xs" and iy': "map_inv (mem \<sigma>) y ys" by simp_all
  show "set (first x # xs) \<inter> set (first y # ys) = {}"
  proof (cases "k < length (maps \<sigma>)")
    case True
    with y have yo: "maps \<sigma> ! k = Some y" by (simp add: nth_append)
    from well_formedD2[OF wf jl True _ xo yo ix' iy'] jk show ?thesis by simp
  next
    case False
    with k have "k = length (maps \<sigma>)" by simp
    with y have yc: "y = c" by simp
    with iy' inv have "ys = bs" by (auto dest: map_inv_unique)
    with dj[OF jl xo ix'] yc show ?thesis by simp
  qed
qed

text \<open>A map is destroyed: its nodes are freed and its handle dies.\<close>

lemma well_formed_destroy:
  assumes wf: "well_formed \<sigma>" and i: "i < length (maps \<sigma>)" and m: "maps \<sigma> ! i = Some m"
    and inv: "map_inv (mem \<sigma>) m as"
    and c: "cells s' = without (mem \<sigma>) (first m # as)" and b: "brk s' = brk (mem \<sigma>)"
  shows "well_formed (\<sigma>\<lparr>mem := s', maps := (maps \<sigma>)[i := None]\<rparr>)"
proof -
  let ?\<sigma> = "\<sigma>\<lparr>mem := s', maps := (maps \<sigma>)[i := None]\<rparr>"
  have u: "untouched (mem \<sigma>) (first m # as) s'"
    using c b by (simp add: untouched_def without_def)
  have other: "\<exists>bs. map_inv (mem \<sigma>) x bs \<and> map_inv s' x bs \<and>
      lawful (compare_keys x) (copy_key x)"
    if j: "j < length (maps \<sigma>)" "j \<noteq> i" and x: "maps \<sigma> ! j = Some x" for j x
  proof -
    from well_formedD1[OF wf j(1) x] obtain bs where l: "lawful (compare_keys x) (copy_key x)"
      and b: "map_inv (mem \<sigma>) x bs" by blast
    from well_formedD2[OF wf i j(1) _ m x inv b] j(2)
    have dj: "set (first m # as) \<inter> set (first x # bs) = {}" by blast
    from untouched_frame[OF u b dj] b l show ?thesis by blast
  qed
  have live: "j \<noteq> i \<and> j < length (maps \<sigma>) \<and> maps \<sigma> ! j = Some x"
    if "j < length (maps ?\<sigma>)" "maps ?\<sigma> ! j = Some x" for j x
    using that i by (cases "j = i") simp_all
  show ?thesis
  proof (rule well_formedI)
    fix j x assume "j < length (maps ?\<sigma>)" "maps ?\<sigma> ! j = Some x"
    from live[OF this] have "j < length (maps \<sigma>)" "j \<noteq> i" "maps \<sigma> ! j = Some x" by simp_all
    from other[OF this]
    show "lawful (compare_keys x) (copy_key x) \<and> (\<exists>as. map_inv (mem ?\<sigma>) x as)" by auto
  next
    fix j k x y xs ys
    assume j: "j < length (maps ?\<sigma>)" "maps ?\<sigma> ! j = Some x"
      and k: "k < length (maps ?\<sigma>)" "maps ?\<sigma> ! k = Some y" and jk: "j < k"
      and ix: "map_inv (mem ?\<sigma>) x xs" and iy: "map_inv (mem ?\<sigma>) y ys"
    from live[OF j] have a: "j < length (maps \<sigma>)" "j \<noteq> i" "maps \<sigma> ! j = Some x" by simp_all
    from live[OF k] have b: "k < length (maps \<sigma>)" "k \<noteq> i" "maps \<sigma> ! k = Some y" by simp_all
    from other[OF a] ix obtain "map_inv (mem \<sigma>) x xs" by (auto dest: map_inv_unique)
    moreover from other[OF b] iy obtain "map_inv (mem \<sigma>) y ys" by (auto dest: map_inv_unique)
    ultimately show "set (first x # xs) \<inter> set (first y # ys) = {}"
      using well_formedD2[OF wf a(1) b(1) _ a(3) b(3)] jk by simp
  qed
qed


lemma well_formed_grows_new:
  assumes wf: "well_formed \<sigma>" and u: "untouched (mem \<sigma>) [] s'"
    and inv: "map_inv s' c bs" and l: "lawful (compare_keys c) (copy_key c)"
    and fresh: "\<forall>b\<in>set (first c # bs). brk (mem \<sigma>) \<le> b"
  shows "well_formed (\<sigma>\<lparr>mem := s', maps := maps \<sigma> @ [Some c]\<rparr>)"
proof -
  let ?\<sigma> = "\<sigma>\<lparr>mem := s'\<rparr>"
  have wf1: "well_formed ?\<sigma>" using wf u by (rule well_formed_grows)
  have "well_formed (?\<sigma>\<lparr>maps := maps ?\<sigma> @ [Some c]\<rparr>)"
  proof (rule well_formed_new_handle[OF wf1])
    show "map_inv (mem ?\<sigma>) c bs" using inv by simp
    show "lawful (compare_keys c) (copy_key c)" by (rule l)
  next
    fix j x xs
    assume "j < length (maps ?\<sigma>)" "maps ?\<sigma> ! j = Some x" and ix: "map_inv (mem ?\<sigma>) x xs"
    then have a: "j < length (maps \<sigma>)" "maps \<sigma> ! j = Some x" by simp_all
    from well_formedD1[OF wf a] obtain ys where y: "map_inv (mem \<sigma>) x ys" by blast
    from untouched_frame[OF u y] have "map_inv s' x ys" by simp
    with ix have "xs = ys" by (auto dest: map_inv_unique)
    with y have "\<And>a. a \<in> set (first x # xs) \<Longrightarrow> a < brk (mem \<sigma>)"
      by (blast dest: map_inv_below)
    with fresh show "set (first x # xs) \<inter> set (first c # bs) = {}" by fastforce
  qed
  then show ?thesis by simp
qed

lemma mapCreate_untouched:
  assumes "mapCreate s cdo cko fdo fko cmpo = Inr (s', mo)"
  shows "untouched s [] s'"
proof (cases mo)
  case (Some mp)
  with mapCreate_Some[of s cdo cko fdo fko cmpo s' mp] assms show ?thesis
    by (simp add: untouched_def)
next
  case None
  show ?thesis
  proof (cases "cdo = None \<or> cko = None \<or> fdo = None \<or> fko = None \<or> cmpo = None")
    case True
    from mapCreate_absent[OF this, of s] assms show ?thesis by (simp add: untouched_def)
  next
    case False
    then obtain cd ck fd fk cmp where "cdo = Some cd" "cko = Some ck" "fdo = Some fd"
      "fko = Some fk" "cmpo = Some cmp" by auto
    with mapCreate_result[of s cd ck fd fk cmp] assms None show ?thesis
      by (auto simp: untouched_def)
  qed
qed

lemma mapGetFirst_struct:
  assumes "mapGetFirst s (Some mp) = Inr (mo', k)"
  shows "\<exists>it. mo' = Some (mp\<lparr>iterator := it\<rparr>)"
proof -
  have "mp = mp\<lparr>iterator := iterator mp\<rparr>" by simp
  with assms show ?thesis
    by (auto simp: mapGetFirst_def andThen_def split: sum.splits if_splits
        intro: exI[of _ "iterator mp"])
qed

lemma mapGetNext_struct:
  assumes "mapGetNext s (Some mp) = Inr (mo', k)"
  shows "\<exists>it. mo' = Some (mp\<lparr>iterator := it\<rparr>)"
proof -
  have "mp = mp\<lparr>iterator := iterator mp\<rparr>" by simp
  with assms show ?thesis
    by (auto simp: mapGetNext_def andThen_def split: sum.splits if_splits
        intro: exI[of _ "iterator mp"])
qed

lemma well_formed_iterator:
  assumes wf: "well_formed \<sigma>" and i: "i < length (maps \<sigma>)" and m: "maps \<sigma> ! i = Some mp"
  shows "well_formed (\<sigma>\<lparr>maps := (maps \<sigma>)[i := Some (mp\<lparr>iterator := it\<rparr>)]\<rparr>)"
proof -
  from well_formedD1[OF wf i m] obtain as where inv: "map_inv (mem \<sigma>) mp as" by blast
  have "evolves (mem \<sigma>) mp as (mem \<sigma>) (mp\<lparr>iterator := it\<rparr>) as"
    using inv by (rule evolves_unchanged) (simp_all add: same_functions_upd)
  from well_formed_evolves[OF wf i m inv this] show ?thesis by simp
qed

lemma well_formed_step:
  assumes wf: "well_formed \<sigma>" and st: "step \<sigma> c = Some (Inr (\<sigma>', x))" and lc: "lawful_call c"
  shows "well_formed \<sigma>'"
proof (cases c)
  case (Create cd ck fd fk cmp)
  with st obtain s mo h where r: "mapCreate (mem \<sigma>) cd ck fd fk cmp = Inr (s, mo)"
    and n: "new_handle (\<sigma>\<lparr>mem := s\<rparr>) mo = (\<sigma>', h)"
    by (auto simp: andThenP_def split: sum.splits prod.splits)
  have u: "untouched (mem \<sigma>) [] s" using r by (rule mapCreate_untouched)
  show ?thesis
  proof (cases mo)
    case None
    with n have "\<sigma>' = \<sigma>\<lparr>mem := s\<rparr>" by (simp add: new_handle_def)
    with well_formed_grows[OF wf u] show ?thesis by simp
  next
    case (Some mp)
    with n have e: "\<sigma>' = \<sigma>\<lparr>mem := s, maps := maps \<sigma> @ [Some mp]\<rparr>" by (simp add: new_handle_def)
    from mapCreate_Some[OF r[unfolded Some]] have f: "first mp = brk (mem \<sigma>)"
      "cko = Some (copy_key mp)" "cmpo = Some (compare_keys mp)"
      if "cko = ck" "cmpo = cmp" for cko cmpo using that by simp_all
    have l: "lawful (compare_keys mp) (copy_key mp)"
      using lc Create f(2,3)[OF refl refl] by simp
    have "well_formed (\<sigma>\<lparr>mem := s, maps := maps \<sigma> @ [Some mp]\<rparr>)"
      using wf u mapCreate_inv[OF r[unfolded Some]] l
      by (rule well_formed_grows_new) (simp add: f(1)[OF refl refl])
    with e show ?thesis by simp
  qed
next
  case (Destroy g)
  with st obtain mo s where m: "map_of_handle \<sigma> g = Inr mo"
    and r: "mapDestroy (mem \<sigma>) mo = Some (Inr s)" and e: "\<sigma>' = put_back \<sigma> g s None"
    by (auto simp: andThenP_def split: sum.splits option.splits)
  show ?thesis
  proof (cases g)
    case None
    with m r e have "\<sigma>' = \<sigma>" by (simp add: map_of_handle_None mapDestroy_null put_back_def)
    with wf show ?thesis by simp
  next
    case (Some i)
    from map_of_handle_Some[OF m[unfolded Some]] obtain mp where i: "i < length (maps \<sigma>)"
      and mp: "maps \<sigma> ! i = Some mp" and mo: "mo = Some mp" by blast
    from well_formedD1[OF wf i mp] obtain as where inv: "map_inv (mem \<sigma>) mp as" by blast
    from mapDestroy_inv[OF inv] r mo
    have "cells s = without (mem \<sigma>) (first mp # as)" "brk s = brk (mem \<sigma>)" by auto
    from well_formed_destroy[OF wf i mp inv this] e Some show ?thesis
      by (simp add: put_back_def)
  qed
next
  case (Copy g)
  with st obtain mo s mo' co h' where m: "map_of_handle \<sigma> g = Inr mo"
    and r: "mapCopy (mem \<sigma>) mo = Some (Inr (s, mo', co))"
    and n: "new_handle (put_back \<sigma> g s mo') co = (\<sigma>', h')"
    by (auto simp: andThenP_def split: sum.splits option.splits prod.splits)
  show ?thesis
  proof (cases g)
    case None
    with m r n have "\<sigma>' = \<sigma>"
      by (auto simp: map_of_handle_None mapCopy_def put_back_def new_handle_def)
    with wf show ?thesis by simp
  next
    case (Some i)
    from map_of_handle_Some[OF m[unfolded Some]] obtain mp where i: "i < length (maps \<sigma>)"
      and mp: "maps \<sigma> ! i = Some mp" and mo: "mo = Some mp" by blast
    from well_formedD1[OF wf i mp] obtain as where inv: "map_inv (mem \<sigma>) mp as"
      and l: "lawful (compare_keys mp) (copy_key mp)" by blast
    note r' = r[unfolded mo]
    show ?thesis
    proof (cases co)
      case None
      from mapCopy_inv[OF inv r'] None have mo': "mo' = Some mp"
        and u: "untouched (mem \<sigma>) [] s" by (simp_all add: untouched_def)
      have "(maps \<sigma>)[i := Some mp] = maps \<sigma>" using mp by (metis list_update_id)
      with n None Some mo' have "\<sigma>' = \<sigma>\<lparr>mem := s\<rparr>" by (simp add: put_back_def new_handle_def)
      with well_formed_grows[OF wf u] show ?thesis by simp
    next
      case (Some c)
      from mapCopy_success[OF inv l r'[unfolded Some]] obtain bs where
        mo': "mo' = Some (mp\<lparr>iterator := None\<rparr>)" and ic: "map_inv s c bs"
        and sf: "same_functions mp c" and u: "untouched (mem \<sigma>) [] s"
        and fresh: "\<forall>b\<in>set (first c # bs). brk (mem \<sigma>) \<le> b" by blast
      have lc': "lawful (compare_keys c) (copy_key c)" using l sf by (simp add: same_functions_def)
      let ?\<sigma>1 = "\<sigma>\<lparr>mem := s, maps := maps \<sigma> @ [Some c]\<rparr>"
      have wf1: "well_formed ?\<sigma>1" using wf u ic lc' fresh by (rule well_formed_grows_new)
      have i1: "i < length (maps ?\<sigma>1)" using i by simp
      have m1: "maps ?\<sigma>1 ! i = Some mp" using i mp by (simp add: nth_append)
      from well_formed_iterator[OF wf1 i1 m1, of None] i
      have "well_formed (\<sigma>\<lparr>mem := s, maps := (maps \<sigma>)[i := Some (mp\<lparr>iterator := None\<rparr>)] @ [Some c]\<rparr>)"
        by (simp add: list_update_append1)
      moreover from n Some \<open>g = Some i\<close> mo'
      have "\<sigma>' = \<sigma>\<lparr>mem := s, maps := (maps \<sigma>)[i := Some (mp\<lparr>iterator := None\<rparr>)] @ [Some c]\<rparr>"
        by (simp add: put_back_def new_handle_def)
      ultimately show ?thesis by simp
    qed
  qed
next
  case (GetSize g)
  with st wf show ?thesis by (auto simp: andThenP_def split: sum.splits)
next
  case (Contains g k)
  with st wf show ?thesis by (auto simp: andThenP_def split: sum.splits option.splits)
next
  case (Get g k)
  with st wf show ?thesis by (auto simp: andThenP_def split: sum.splits option.splits)
next
  case (Put g k d)
  with st obtain mo s mo' res where m: "map_of_handle \<sigma> g = Inr mo"
    and r: "mapPut (mem \<sigma>) mo k d = Some (Inr (s, mo', res))"
    and e: "\<sigma>' = put_back \<sigma> g s mo'"
    by (auto simp: andThenP_def split: sum.splits option.splits prod.splits)
  show ?thesis
  proof (cases g)
    case None
    with m have "mo = None" by (simp add: map_of_handle_None)
    with r mapPut_null_argument[of mo k d "mem \<sigma>"] have "s = mem \<sigma>" by simp
    with e None have "\<sigma>' = \<sigma>" by (simp add: put_back_def)
    with wf show ?thesis by simp
  next
    case (Some i)
    from map_of_handle_Some[OF m[unfolded Some]] obtain mp where i: "i < length (maps \<sigma>)"
      and mp: "maps \<sigma> ! i = Some mp" and mo: "mo = Some mp" by blast
    from well_formedD1[OF wf i mp] obtain as where inv: "map_inv (mem \<sigma>) mp as"
      and l: "lawful (compare_keys mp) (copy_key mp)" by blast
    from mapPut_evolves[OF inv l r[unfolded mo]] obtain mp' as' where
      "mo' = Some mp'" "evolves (mem \<sigma>) mp as s mp' as'" by blast
    with well_formed_evolves[OF wf i mp inv this(2)] e Some show ?thesis
      by (simp add: put_back_def)
  qed
next
  case (Remove g k)
  with st obtain mo s mo' res where m: "map_of_handle \<sigma> g = Inr mo"
    and r: "mapRemove (mem \<sigma>) mo k = Some (Inr (s, mo', res))"
    and e: "\<sigma>' = put_back \<sigma> g s mo'"
    by (auto simp: andThenP_def split: sum.splits option.splits prod.splits)
  show ?thesis
  proof (cases g)
    case None
    with m have "mo = None" by (simp add: map_of_handle_None)
    with r mapRemove_null_argument[of mo k "mem \<sigma>"] have "s = mem \<sigma>" by simp
    with e None have "\<sigma>' = \<sigma>" by (simp add: put_back_def)
    with wf show ?thesis by simp
  next
    case (Some i)
    from map_of_handle_Some[OF m[unfolded Some]] obtain mp where i: "i < length (maps \<sigma>)"
      and mp: "maps \<sigma> ! i = Some mp" and mo: "mo = Some mp" by blast
    from well_formedD1[OF wf i mp] obtain as where inv: "map_inv (mem \<sigma>) mp as"
      and l: "lawful (compare_keys mp) (copy_key mp)" by blast
    from mapRemove_evolves[OF inv l r[unfolded mo]] obtain mp' as' where
      "mo' = Some mp'" "evolves (mem \<sigma>) mp as s mp' as'" by blast
    with well_formed_evolves[OF wf i mp inv this(2)] e Some show ?thesis
      by (simp add: put_back_def)
  qed
next
  case (Clear g)
  with st obtain mo s mo' res where m: "map_of_handle \<sigma> g = Inr mo"
    and r: "mapClear (mem \<sigma>) mo = Some (Inr (s, mo', res))"
    and e: "\<sigma>' = put_back \<sigma> g s mo'"
    by (auto simp: andThenP_def split: sum.splits option.splits prod.splits)
  show ?thesis
  proof (cases g)
    case None
    with m have "mo = None" by (simp add: map_of_handle_None)
    with r mapClear_null[of "mem \<sigma>"] have "s = mem \<sigma>" by simp
    with e None have "\<sigma>' = \<sigma>" by (simp add: put_back_def)
    with wf show ?thesis by simp
  next
    case (Some i)
    from map_of_handle_Some[OF m[unfolded Some]] obtain mp where i: "i < length (maps \<sigma>)"
      and mp: "maps \<sigma> ! i = Some mp" and mo: "mo = Some mp" by blast
    from well_formedD1[OF wf i mp] obtain as where inv: "map_inv (mem \<sigma>) mp as" by blast
    from mapClear_evolves[OF inv r[unfolded mo]] obtain mp' where
      "mo' = Some mp'" "evolves (mem \<sigma>) mp as s mp' []" by blast
    with well_formed_evolves[OF wf i mp inv this(2)] e Some show ?thesis
      by (simp add: put_back_def)
  qed
next
  case (GetFirst g)
  with st obtain mo mo' k where m: "map_of_handle \<sigma> g = Inr mo"
    and r: "mapGetFirst (mem \<sigma>) mo = Inr (mo', k)"
    and e: "\<sigma>' = put_back \<sigma> g (mem \<sigma>) mo'"
    by (auto simp: andThenP_def split: sum.splits option.splits prod.splits)
  show ?thesis
  proof (cases g)
    case None
    with e have "\<sigma>' = \<sigma>" by (simp add: put_back_def)
    with wf show ?thesis by simp
  next
    case (Some i)
    from map_of_handle_Some[OF m[unfolded Some]] obtain mp where i: "i < length (maps \<sigma>)"
      and mp: "maps \<sigma> ! i = Some mp" and mo: "mo = Some mp" by blast
    from mapGetFirst_struct[OF r[unfolded mo]] obtain it where
      "mo' = Some (mp\<lparr>iterator := it\<rparr>)" by blast
    with well_formed_iterator[OF wf i mp, of it] e Some show ?thesis
      by (simp add: put_back_def)
  qed
next
  case (GetNext g)
  with st obtain mo mo' k where m: "map_of_handle \<sigma> g = Inr mo"
    and r: "mapGetNext (mem \<sigma>) mo = Inr (mo', k)"
    and e: "\<sigma>' = put_back \<sigma> g (mem \<sigma>) mo'"
    by (auto simp: andThenP_def split: sum.splits option.splits prod.splits)
  show ?thesis
  proof (cases g)
    case None
    with e have "\<sigma>' = \<sigma>" by (simp add: put_back_def)
    with wf show ?thesis by simp
  next
    case (Some i)
    from map_of_handle_Some[OF m[unfolded Some]] obtain mp where i: "i < length (maps \<sigma>)"
      and mp: "maps \<sigma> ! i = Some mp" and mo: "mo = Some mp" by blast
    from mapGetNext_struct[OF r[unfolded mo]] obtain it where
      "mo' = Some (mp\<lparr>iterator := it\<rparr>)" by blast
    with well_formed_iterator[OF wf i mp, of it] e Some show ?thesis
      by (simp add: put_back_def)
  qed
qed

lemma reachable_well_formed: "reachable \<sigma> \<Longrightarrow> well_formed \<sigma>"
proof (induction rule: reachable.induct)
  case (reachable_start ms w)
  show ?case by (rule well_formed_start)
next
  case (reachable_step \<sigma> c \<sigma>' x)
  then show ?case by (blast intro: well_formed_step)
qed

lemma reachable_run:
  assumes "reachable \<sigma>" and "list_all lawful_call cs" and "run \<sigma> cs = Some (Inr (\<sigma>', xs))"
  shows "reachable \<sigma>'"
  using assms
proof (induction cs arbitrary: \<sigma> xs)
  case Nil
  then show ?case by simp
next
  case (Cons c cs)
  from Cons.prems(3) obtain \<sigma>1 x ys where s: "step \<sigma> c = Some (Inr (\<sigma>1, x))"
    and r: "run \<sigma>1 cs = Some (Inr (\<sigma>', ys))"
    by (auto simp: andThenP_def split: option.splits sum.splits prod.splits)
  from Cons.prems(1,2) s have "reachable \<sigma>1" by (auto intro: reachable.reachable_step)
  with Cons.IH[OF _ _ r] Cons.prems(2) show ?case by simp
qed

lemma demo_reachable: "reachable \<lparr>mem = demo_mem, maps = [Some demo_map]\<rparr>"
proof -
  have "reachable (start [] ([] :: bool list) :: (int, int, bool list) system)"
    by (rule reachable.reachable_start)
  moreover have "list_all lawful_call
     [createInts, Put (Some 0) (Some 1) (Some 10), Put (Some 0) (Some 3) (Some 30)]"
    by (simp add: createInts_def lawful_ints)
  ultimately show ?thesis using demo_run by (rule reachable_run)
qed

lemma sorted_wrt_pair:
  "sorted_wrt P xs \<Longrightarrow> a \<in> set xs \<Longrightarrow> b \<in> set xs \<Longrightarrow> a \<noteq> b \<Longrightarrow> P a b \<or> P b a"
  by (induction xs) auto

text \<open>
  Claim C3. In every state that a client reaches from the empty store through calls of
  the public functions (with lawful comparison and key copy functions given to
  \<^verbatim>\<open>mapCreate\<close>, and no call with undefined behaviour), every live map has a chain of
  nodes from the dummy node to \<^verbatim>\<open>NULL\<close> in which every node's key compares below the key
  of every later node (so no two nodes compare 0), and the \<^verbatim>\<open>size\<close> field is the number
  of nodes after the dummy node.
\<close>

theorem reachable_maps_sorted_and_counted:
  assumes "reachable \<sigma>" and "i < length (maps \<sigma>)" and "maps \<sigma> ! i = Some m"
  shows "\<exists>as. chain (mem \<sigma>) (Some (first m)) (first m # as) \<and>
     sorted_wrt (\<lambda>a b. compare_keys m (key_at (mem \<sigma>) a) (key_at (mem \<sigma>) b) < 0) as \<and>
     (\<forall>a\<in>set as. \<forall>b\<in>set as. a \<noteq> b \<longrightarrow>
        compare_keys m (key_at (mem \<sigma>) a) (key_at (mem \<sigma>) b) \<noteq> 0) \<and>
     distinct as \<and> msize m = int (length as) \<and> mapGetSize (Some m) = int (length as)"
proof -
  from assms(1) have "well_formed \<sigma>" by (rule reachable_well_formed)
  from well_formedD1[OF this assms(2,3)] obtain as where inv: "map_inv (mem \<sigma>) m as"
    and l: "lawful (compare_keys m) (copy_key m)" by blast
  have s: "sorted_wrt (\<lambda>a b. compare_keys m (key_at (mem \<sigma>) a) (key_at (mem \<sigma>) b) < 0) as"
    using map_inv_sorted[OF inv] by (simp add: before_def[abs_def])
  have nz: "compare_keys m (key_at (mem \<sigma>) a) (key_at (mem \<sigma>) b) \<noteq> 0"
    if a: "a \<in> set as" and b: "b \<in> set as" and ab: "a \<noteq> b" for a b
  proof -
    from map_inv_key[OF inv a] map_inv_key[OF inv b] obtain ka kb where
      k: "key_at (mem \<sigma>) a = Some ka" "key_at (mem \<sigma>) b = Some kb" by blast
    from sorted_wrt_pair[OF s a b ab] k
    have "compare_keys m (Some ka) (Some kb) < 0 \<or> compare_keys m (Some kb) (Some ka) < 0"
      by simp
    with lawful_zero[OF l, of ka kb] k show ?thesis by auto
  qed
  have d: "distinct as" using map_inv_distinct[OF inv] by simp
  have z: "msize m = int (length as)" using inv by (rule map_inv_size)
  have c: "chain (mem \<sigma>) (Some (first m)) (first m # as)" using inv by (rule map_inv_chain)
  from c s nz d z show ?thesis by (auto simp: mapGetSize_def)
qed

theorem reachable_maps_sorted_and_counted_witness:
  "reachable \<lparr>mem = demo_mem, maps = [Some demo_map]\<rparr> \<and>
   (\<exists>as. chain demo_mem (Some 0) (0 # as) \<and>
      sorted_wrt (\<lambda>a b. compareInts (key_at demo_mem a) (key_at demo_mem b) < 0) as \<and>
      int (length as) = 2)"
proof -
  have f: "first demo_map = 0" "compare_keys demo_map = compareInts" "msize demo_map = 2"
    by (simp_all add: demo_map_def)
  have "\<exists>as. chain demo_mem (Some 0) (0 # as) \<and>
      sorted_wrt (\<lambda>a b. compareInts (key_at demo_mem a) (key_at demo_mem b) < 0) as \<and>
      int (length as) = 2"
    using reachable_maps_sorted_and_counted[OF demo_reachable, of 0 demo_map]
    by (auto simp: f)
  with demo_reachable show ?thesis by (rule conjI)
qed

end
